theory Spec2Isabelle
  imports Main "HOL-Library.Char_ord" "HOL-Library.List_Lexorder" "HOL-Library.Monad_Syntax"
    "HOL-Library.Sublist"
begin

section \<open>Text\<close>

text \<open>
  Python strings are modelled as \<open>string\<close> (lists of 8-bit characters); the order on
  them is the lexicographic order by character code, which is how Python compares
  \<open>str\<close> values. Text with characters beyond code 255 is outside the model.
\<close>

definition nl :: char where
  "nl = CHR 0x0A"

text \<open>\<open>f"'{x}'"\<close>: the value between two apostrophes.\<close>

definition quoted :: "string \<Rightarrow> string" where
  "quoted x = CHR 0x27 # x @ [CHR 0x27]"

definition digit_char :: "nat \<Rightarrow> char" where
  "digit_char d = char_of (48 + d)"

text \<open>\<open>str(n)\<close> for a non-negative integer: its decimal digits.\<close>

function str_int :: "nat \<Rightarrow> string" where
  "str_int n = (if n < 10 then [digit_char n] else str_int (n div 10) @ [digit_char (n mod 10)])"
  by pat_completeness auto
termination
  by (relation "measure id") auto

declare str_int.simps [simp del]

text \<open>\<open>s.zfill(w)\<close>, the padding of \<open>%02d\<close> and of \<open>%Y\<close>.\<close>

definition zfill :: "nat \<Rightarrow> string \<Rightarrow> string" where
  "zfill w s = replicate (w - length s) (CHR ''0'') @ s"

text \<open>\<open>s.split(c)\<close>.\<close>

fun split_on :: "char \<Rightarrow> string \<Rightarrow> string list" where
  "split_on c [] = [[]]"
| "split_on c (x # xs) =
     (if x = c then [] # split_on c xs
      else (case split_on c xs of [] \<Rightarrow> [[x]] | w # ws \<Rightarrow> (x # w) # ws))"

section \<open>The clock: \<open>datetime.now()\<close>, \<open>strftime\<close> and \<open>strptime\<close>\<close>

record datetime =
  year :: nat
  month :: nat
  day :: nat
  hour :: nat
  minute :: nat
  second :: nat

text \<open>\<open>dt.strftime('%Y-%m-%d_%H-%M-%S')\<close>.\<close>

definition strftime :: "datetime \<Rightarrow> string" where
  "strftime dt =
     zfill 4 (str_int (year dt)) @ ''-'' @ zfill 2 (str_int (month dt)) @ ''-'' @
     zfill 2 (str_int (day dt)) @ ''_'' @ zfill 2 (str_int (hour dt)) @ ''-'' @
     zfill 2 (str_int (minute dt)) @ ''-'' @ zfill 2 (str_int (second dt))"

text \<open>What \<open>datetime.now()\<close> can return: a calendar date and a time of day.\<close>

definition is_leap :: "nat \<Rightarrow> bool" where
  "is_leap y = (y mod 4 = 0 \<and> (y mod 400 = 0 \<or> y mod 100 \<noteq> 0))"

definition days_in_month :: "nat \<Rightarrow> nat \<Rightarrow> nat" where
  "days_in_month y m =
     (if m = 2 then (if is_leap y then 29 else 28)
      else if m = 4 \<or> m = 6 \<or> m = 9 \<or> m = 11 then 30 else 31)"

definition valid_date :: "datetime \<Rightarrow> bool" where
  "valid_date dt =
     (1 \<le> year dt \<and> year dt \<le> 9999 \<and> 1 \<le> month dt \<and> month dt \<le> 12 \<and>
      1 \<le> day dt \<and> day dt \<le> days_in_month (year dt) (month dt))"

definition valid_datetime :: "datetime \<Rightarrow> bool" where
  "valid_datetime dt =
     (valid_date dt \<and> hour dt \<le> 23 \<and> minute dt \<le> 59 \<and> second dt \<le> 59)"

text \<open>
  \<open>datetime.strptime(s, '%Y-%m-%d_%H-%M-%S')\<close>, with \<open>None\<close> for \<open>ValueError\<close>.
  The library turns the format into the regular expression
  \<^verbatim>\<open>(\d\d\d\d)-(1[0-2]|0[1-9]|[1-9])-(3[01]|[12]\d|0[1-9]|[1-9]| [1-9])_(2[0-3]|[0-1]\d|\d)-([0-5]\d|\d)-(6[0-1]|[0-5]\d|\d)\<close>
  which must match the whole string, and then builds the datetime, which rejects a
  year 0, a day the month does not have and a second above 59. No alternative of a
  field contains the separator that follows it, so a field is the text up to that
  separator. The fields need not have the width that \<open>strftime\<close> gives them: the
  leading zero of a month, day, hour, minute or second is optional, and a day may be
  padded with a blank. Among the 8-bit characters of the model \<^verbatim>\<open>\d\<close> matches the digits
  0 to 9 only; in Python it also matches the decimal digits of other scripts, which
  these strings cannot hold.
\<close>

definition in_range :: "char \<Rightarrow> char \<Rightarrow> char \<Rightarrow> bool" where
  "in_range lo hi c = (lo \<le> c \<and> c \<le> hi)"

definition is_digit :: "char \<Rightarrow> bool" where
  "is_digit c = in_range (CHR ''0'') (CHR ''9'') c"

definition re_Y :: "string \<Rightarrow> bool" where
  "re_Y f = (length f = 4 \<and> list_all is_digit f)"

definition re_m :: "string \<Rightarrow> bool" where
  "re_m f =
     (case f of
        [a] \<Rightarrow> in_range (CHR ''1'') (CHR ''9'') a
      | [a, b] \<Rightarrow> (a = CHR ''1'' \<and> in_range (CHR ''0'') (CHR ''2'') b) \<or>
                  (a = CHR ''0'' \<and> in_range (CHR ''1'') (CHR ''9'') b)
      | _ \<Rightarrow> False)"

definition re_d :: "string \<Rightarrow> bool" where
  "re_d f =
     (case f of
        [a] \<Rightarrow> in_range (CHR ''1'') (CHR ''9'') a
      | [a, b] \<Rightarrow> (a = CHR ''3'' \<and> in_range (CHR ''0'') (CHR ''1'') b) \<or>
                  (in_range (CHR ''1'') (CHR ''2'') a \<and> is_digit b) \<or>
                  (a = CHR ''0'' \<and> in_range (CHR ''1'') (CHR ''9'') b) \<or>
                  (a = CHR '' '' \<and> in_range (CHR ''1'') (CHR ''9'') b)
      | _ \<Rightarrow> False)"

definition re_H :: "string \<Rightarrow> bool" where
  "re_H f =
     (case f of
        [a] \<Rightarrow> is_digit a
      | [a, b] \<Rightarrow> (a = CHR ''2'' \<and> in_range (CHR ''0'') (CHR ''3'') b) \<or>
                  (in_range (CHR ''0'') (CHR ''1'') a \<and> is_digit b)
      | _ \<Rightarrow> False)"

definition re_M :: "string \<Rightarrow> bool" where
  "re_M f =
     (case f of
        [a] \<Rightarrow> is_digit a
      | [a, b] \<Rightarrow> in_range (CHR ''0'') (CHR ''5'') a \<and> is_digit b
      | _ \<Rightarrow> False)"

definition re_S :: "string \<Rightarrow> bool" where
  "re_S f =
     (case f of
        [a] \<Rightarrow> is_digit a
      | [a, b] \<Rightarrow> (a = CHR ''6'' \<and> in_range (CHR ''0'') (CHR ''1'') b) \<or>
                  (in_range (CHR ''0'') (CHR ''5'') a \<and> is_digit b)
      | _ \<Rightarrow> False)"

text \<open>\<open>int(f)\<close> on a matched field: blanks are stripped, the rest are decimal digits.\<close>

definition digit_val :: "char \<Rightarrow> nat" where
  "digit_val c = of_char c - 48"

definition py_int :: "string \<Rightarrow> nat" where
  "py_int f = foldl (\<lambda>a c. 10 * a + digit_val c) 0 (filter (\<lambda>c. c \<noteq> CHR '' '') f)"

definition expect :: "char \<Rightarrow> string \<Rightarrow> string option" where
  "expect c s = (case s of [] \<Rightarrow> None | x # xs \<Rightarrow> if x = c then Some xs else None)"

definition strptime :: "string \<Rightarrow> datetime option" where
  "strptime s = do {
     r1 \<leftarrow> expect (CHR ''-'') (drop 4 s);
     r2 \<leftarrow> expect (CHR ''-'') (dropWhile (\<lambda>c. c \<noteq> CHR ''-'') r1);
     r3 \<leftarrow> expect (CHR ''_'') (dropWhile (\<lambda>c. c \<noteq> CHR ''_'') r2);
     r4 \<leftarrow> expect (CHR ''-'') (dropWhile (\<lambda>c. c \<noteq> CHR ''-'') r3);
     r5 \<leftarrow> expect (CHR ''-'') (dropWhile (\<lambda>c. c \<noteq> CHR ''-'') r4);
     let fY = take 4 s;
     let fm = takeWhile (\<lambda>c. c \<noteq> CHR ''-'') r1;
     let fd = takeWhile (\<lambda>c. c \<noteq> CHR ''_'') r2;
     let fH = takeWhile (\<lambda>c. c \<noteq> CHR ''-'') r3;
     let fM = takeWhile (\<lambda>c. c \<noteq> CHR ''-'') r4;
     let fS = r5;
     let dt = \<lparr>year = py_int fY, month = py_int fm, day = py_int fd,
                hour = py_int fH, minute = py_int fM, second = py_int fS\<rparr>;
     if re_Y fY \<and> re_m fm \<and> re_d fd \<and> re_H fH \<and> re_M fM \<and> re_S fS \<and>
        valid_date dt \<and> second dt \<le> 59
     then Some dt else None
   }"

section \<open>Paths: \<open>os.path\<close>\<close>

text \<open>
  Paths are the strings the program builds. The operating system resolves a path
  string to its list of components (\<open>components\<close>): empty components and \<open>.\<close> are
  dropped, the working directory is taken to be the root, and the model has no
  symbolic links and gives \<open>..\<close> no meaning.
\<close>

definition sep :: char where
  "sep = CHR ''/''"

text \<open>\<open>posixpath.join(a, b)\<close>.\<close>

definition path_join :: "string \<Rightarrow> string \<Rightarrow> string" where
  "path_join a b =
     (if b \<noteq> [] \<and> hd b = sep then b
      else if a = [] \<or> last a = sep then a @ b
      else a @ sep # b)"

definition components :: "string \<Rightarrow> string list" where
  "components p = filter (\<lambda>c. c \<noteq> [] \<and> c \<noteq> ''.'') (split_on sep p)"

text \<open>
  \<open>posixpath.dirname(p)\<close>: the text up to the last separator, with trailing
  separators stripped unless it consists of separators only.
\<close>

definition path_dirname :: "string \<Rightarrow> string" where
  "path_dirname p =
     (let head = rev (dropWhile (\<lambda>c. c \<noteq> sep) (rev p))
      in if head \<noteq> [] \<and> \<not> list_all (\<lambda>c. c = sep) head
         then rev (dropWhile (\<lambda>c. c = sep) (rev head)) else head)"

definition path_basename :: "string \<Rightarrow> string" where
  "path_basename p = rev (takeWhile (\<lambda>c. c \<noteq> sep) (rev p))"

fun commonprefix :: "'a list \<Rightarrow> 'a list \<Rightarrow> 'a list" where
  "commonprefix (x # xs) (y # ys) = (if x = y then x # commonprefix xs ys else [])"
| "commonprefix xs ys = []"

text \<open>
  \<open>posixpath.relpath(path, start)\<close>: both paths are split into components, the common
  prefix is dropped, and each remaining component of \<open>start\<close> becomes a \<open>..\<close>.
\<close>

definition path_relpath :: "string \<Rightarrow> string \<Rightarrow> string" where
  "path_relpath path start =
     (let start_list = components start;
          path_list = components path;
          i = length (commonprefix start_list path_list);
          rel_list = replicate (length start_list - i) ''..'' @ drop i path_list
      in case rel_list of [] \<Rightarrow> ''.'' | x # xs \<Rightarrow> foldl path_join x xs)"

section \<open>The file system and the calls the program makes\<close>

text \<open>
  A file system maps the component list of a path to a directory or to a regular file
  with its content; the root (the empty list) is always a directory. A later entry
  for a path is put in front of the list and hides the older one. Besides the
  failures that follow from the tree (a missing file, a file where a directory is
  needed), every call can be refused by the operating system (permissions, a full
  disk, an I/O error): \<open>faults\<close> says which call fails on which path, and with which
  exception.
\<close>

datatype node = Dir | File string

type_synonym fsys = "(string list \<times> node) list"

datatype exn_kind =
  FileNotFoundError | FileExistsError | NotADirectoryError | IsADirectoryError |
  PermissionError | SameFileError | OSError

datatype exn = Exn exn_kind string

fun kind :: "exn \<Rightarrow> exn_kind" where
  "kind (Exn k m) = k"

text \<open>\<open>f"{e}"\<close>: the exception's message.\<close>

fun str_exn :: "exn \<Rightarrow> string" where
  "str_exn (Exn k m) = m"

datatype syscall = Stat | ListDir | MkDir | CopyFile | OpenWrite

text \<open>
  The state of a run: the file system and its faults, what was printed to standard
  output and to standard error, and the local variables of \<open>run_backup\<close>.
\<close>

record state =
  fs :: fsys
  faults :: "syscall \<Rightarrow> string list \<Rightarrow> exn option"
  out :: "string list"
  err :: "string list"
  log_messages :: "string list"
  files_to_copy :: nat
  files_skipped :: nat
  total_files :: nat

definition lookup :: "fsys \<Rightarrow> string list \<Rightarrow> node option" where
  "lookup t p = (if p = [] then Some Dir else map_of t p)"

definition no_such_file :: exn where
  "no_such_file = Exn FileNotFoundError ''No such file or directory''"

definition os_stat :: "state \<Rightarrow> string \<Rightarrow> exn + node" where
  "os_stat s p =
     (if p = [] then Inl no_such_file
      else (case faults s Stat (components p) of
              Some e \<Rightarrow> Inl e
            | None \<Rightarrow> (case lookup (fs s) (components p) of
                         None \<Rightarrow> Inl no_such_file
                       | Some n \<Rightarrow> Inr n)))"

text \<open>\<open>os.path.isdir\<close> and \<open>os.path.exists\<close> answer \<open>False\<close> when \<open>stat\<close> fails.\<close>

definition path_isdir :: "state \<Rightarrow> string \<Rightarrow> bool" where
  "path_isdir s p = (case os_stat s p of Inr Dir \<Rightarrow> True | _ \<Rightarrow> False)"

definition path_exists :: "state \<Rightarrow> string \<Rightarrow> bool" where
  "path_exists s p = (case os_stat s p of Inr n \<Rightarrow> True | Inl e \<Rightarrow> False)"

text \<open>The size \<open>stat\<close> reports for a directory (what ext4 gives an empty one).\<close>

definition dir_size :: nat where
  "dir_size = 4096"

definition path_getsize :: "state \<Rightarrow> string \<Rightarrow> exn + nat" where
  "path_getsize s p =
     (case os_stat s p of
        Inl e \<Rightarrow> Inl e
      | Inr Dir \<Rightarrow> Inr dir_size
      | Inr (File c) \<Rightarrow> Inr (length c))"

definition child_names :: "fsys \<Rightarrow> string list \<Rightarrow> string list" where
  "child_names t d =
     remdups (map (\<lambda>(p, n). last p) (filter (\<lambda>(p, n). p \<noteq> [] \<and> butlast p = d) t))"

definition scandir :: "state \<Rightarrow> string list \<Rightarrow> exn + string list" where
  "scandir s d =
     (case faults s ListDir d of
        Some e \<Rightarrow> Inl e
      | None \<Rightarrow> (case lookup (fs s) d of
                   None \<Rightarrow> Inl no_such_file
                 | Some (File c) \<Rightarrow> Inl (Exn NotADirectoryError ''Not a directory'')
                 | Some Dir \<Rightarrow> Inr (child_names (fs s) d)))"

definition os_listdir :: "state \<Rightarrow> string \<Rightarrow> exn + string list" where
  "os_listdir s p = (if p = [] then Inl no_such_file else scandir s (components p))"

text \<open>The non-empty prefixes of a component list, shortest first.\<close>

definition ancestors :: "string list \<Rightarrow> string list list" where
  "ancestors q = map (\<lambda>k. take k q) [1..<Suc (length q)]"

definition is_file :: "node option \<Rightarrow> bool" where
  "is_file r = (case r of Some (File c) \<Rightarrow> True | _ \<Rightarrow> False)"

text \<open>
  \<open>os.makedirs(name, exist_ok=True)\<close>: creates every missing directory on the way to
  \<open>name\<close>; fails, changing nothing, when the call is refused or a regular file is in
  the way.
\<close>

definition os_makedirs :: "state \<Rightarrow> string \<Rightarrow> exn + state" where
  "os_makedirs s name =
     (let q = components name in
      if name = [] then Inl no_such_file
      else (case faults s MkDir q of
              Some e \<Rightarrow> Inl e
            | None \<Rightarrow>
                if list_ex (\<lambda>p. is_file (lookup (fs s) p)) (ancestors q)
                then Inl (if is_file (lookup (fs s) q)
                          then Exn FileExistsError ''File exists''
                          else Exn NotADirectoryError ''Not a directory'')
                else Inr (s\<lparr>fs := map (\<lambda>p. (p, Dir))
                                   (filter (\<lambda>p. lookup (fs s) p = None) (ancestors q)) @ fs s\<rparr>)))"

text \<open>\<open>open(p, 'w')\<close> followed by writing \<open>content\<close>.\<close>

definition open_write :: "state \<Rightarrow> string \<Rightarrow> string \<Rightarrow> exn + state" where
  "open_write s p content =
     (let q = components p in
      if p = [] then Inl no_such_file
      else (case faults s OpenWrite q of
              Some e \<Rightarrow> Inl e
            | None \<Rightarrow>
                (case lookup (fs s) q of
                   Some Dir \<Rightarrow> Inl (Exn IsADirectoryError ''Is a directory'')
                 | _ \<Rightarrow> (case lookup (fs s) (butlast q) of
                          Some Dir \<Rightarrow> Inr (s\<lparr>fs := (q, File content) # fs s\<rparr>)
                        | Some (File c) \<Rightarrow> Inl (Exn NotADirectoryError ''Not a directory'')
                        | None \<Rightarrow> Inl no_such_file))))"

text \<open>
  \<open>shutil.copy2(src, dst)\<close>: a destination that is a directory receives the file under
  the source's base name; copying a file onto itself is \<open>SameFileError\<close>.
\<close>

definition shutil_copy2 :: "state \<Rightarrow> string \<Rightarrow> string \<Rightarrow> exn + state" where
  "shutil_copy2 s src dst0 =
     (let dst = (if path_isdir s dst0 then path_join dst0 (path_basename src) else dst0) in
      case faults s CopyFile (components src) of
        Some e \<Rightarrow> Inl e
      | None \<Rightarrow>
          if components src = components dst
          then Inl (Exn SameFileError (quoted src @ '' and '' @ quoted dst @ '' are the same file''))
          else (case lookup (fs s) (components src) of
                  None \<Rightarrow> Inl no_such_file
                | Some Dir \<Rightarrow> Inl (Exn IsADirectoryError ''Is a directory'')
                | Some (File c) \<Rightarrow> open_write s dst c))"

text \<open>
  \<open>os.walk(top)\<close>, top down: each directory is listed when the walk reaches it, a
  directory that cannot be listed yields nothing, and the subdirectories are walked
  in the order of the listing. The walk is taken on the file system as it is when the
  loop starts; the loop writes below the new snapshot directory only, so this is what
  the lazy generator yields unless the snapshot directory lies inside the source tree.
\<close>

definition depth_bound :: "fsys \<Rightarrow> nat" where
  "depth_bound t = Suc (foldr (\<lambda>(p, n) m. max (length p) m) t 0)"

definition is_subdir :: "state \<Rightarrow> string list \<Rightarrow> string \<Rightarrow> bool" where
  "is_subdir s d n = (lookup (fs s) (d @ [n]) = Some Dir)"

lemma child_names_depth:
  assumes "n \<in> set (child_names t d)"
  shows "length d < depth_bound t - 1"
proof -
  have bound: "(p, x) \<in> set t \<Longrightarrow> length p < depth_bound t" for p x
    unfolding depth_bound_def by (induction t) auto
  from assms obtain p x where px: "(p, x) \<in> set t" "p \<noteq> []" "butlast p = d"
    by (auto simp: child_names_def)
  have "length p = Suc (length d)"
    using px(2,3) by (cases p rule: rev_cases) auto
  with bound [OF px(1)] show ?thesis by simp
qed

function walk_from :: "state \<Rightarrow> string \<Rightarrow> string list \<Rightarrow> (string \<times> string list \<times> string list) list" where
  "walk_from s top_dir d =
     (case scandir s d of
        Inl e \<Rightarrow> []
      | Inr names \<Rightarrow>
          (top_dir, filter (is_subdir s d) names, filter (\<lambda>n. \<not> is_subdir s d n) names) #
          concat (map (\<lambda>n. walk_from s (path_join top_dir n) (d @ [n]))
                      (filter (is_subdir s d) names)))"
  by pat_completeness auto
termination
proof (relation "measure (\<lambda>(s, top_dir, d). depth_bound (fs s) - length d)")
  show "wf (measure (\<lambda>(s, top_dir, d). depth_bound (fs s) - length d))" by simp
next
  fix s :: state and top_dir :: string and d :: "string list" and names n
  assume sc: "scandir s d = Inr names" and n: "n \<in> set (filter (is_subdir s d) names)"
  from sc have "names = child_names (fs s) d"
    by (auto simp: scandir_def split: option.splits node.splits)
  with n have "n \<in> set (child_names (fs s) d)" by simp
  from child_names_depth [OF this]
  show "((s, path_join top_dir n, d @ [n]), (s, top_dir, d))
          \<in> measure (\<lambda>(s, top_dir, d). depth_bound (fs s) - length d)"
    by simp
qed

declare walk_from.simps [simp del]

definition os_walk :: "state \<Rightarrow> string \<Rightarrow> (string \<times> string list \<times> string list) list" where
  "os_walk s top_dir = (if top_dir = [] then [] else walk_from s top_dir (components top_dir))"

section \<open>The backup script\<close>

definition print_out :: "string \<Rightarrow> state \<Rightarrow> state" where
  "print_out m s = s\<lparr>out := out s @ [m]\<rparr>"

definition print_err :: "string \<Rightarrow> state \<Rightarrow> state" where
  "print_err m s = s\<lparr>err := err s @ [m]\<rparr>"

definition log_append :: "string \<Rightarrow> state \<Rightarrow> state" where
  "log_append m s = s\<lparr>log_messages := log_messages s @ [m]\<rparr>"

text \<open>\<open>find_latest_backup(destination_dir)\<close>, lines 24-43: the result and the state,
  which differs only by the diagnostic printed when the listing fails.\<close>

definition find_latest_backup :: "string \<Rightarrow> state \<Rightarrow> string option \<times> state" where
  "find_latest_backup destination_dir s =
     (case os_listdir s destination_dir of
        Inl e \<Rightarrow>
          (None, print_err (''Error: Could not find latest backup folder: '' @ str_exn e) s)
      | Inr entries \<Rightarrow>
          (let backup_folders =
                 filter (\<lambda>entry. path_isdir s (path_join destination_dir entry) \<and>
                                  strptime entry \<noteq> None) entries;
               sorted_folders = rev (sort backup_folders)
           in (case sorted_folders of
                 [] \<Rightarrow> (None, s)
               | newest # older \<Rightarrow> (Some (path_join destination_dir newest), s))))"

text \<open>Lines 87-96 of \<open>run_backup\<close>: the baseline of an incremental run.\<close>

definition resolve_baseline :: "string \<Rightarrow> bool \<Rightarrow> state \<Rightarrow> string option \<times> state" where
  "resolve_baseline destination_dir full_backup s =
     (if \<not> full_backup then
        (case find_latest_backup destination_dir s of
           (Some latest_backup_dir, s1) \<Rightarrow>
             if latest_backup_dir \<noteq> [] then
               (Some latest_backup_dir,
                log_append (''Performing incremental backup against: '' @ quoted latest_backup_dir)
                  (print_out (''  > Comparing to latest backup at: '' @ quoted latest_backup_dir) s1))
             else
               (Some latest_backup_dir,
                log_append ''No previous backups found. Performing a full backup.''
                  (print_out ''  > No previous backups found. Performing a full backup instead.'' s1))
         | (None, s1) \<Rightarrow>
             (None,
              log_append ''No previous backups found. Performing a full backup.''
                (print_out ''  > No previous backups found. Performing a full backup instead.'' s1)))
      else (None, s))"

text \<open>
  Lines 127-152, the copy of one file: the result is the exception that leaves the
  loop, if any, and the state. \<open>os.makedirs\<close> on line 128 stands outside every
  \<open>try\<close>; the three handlers of lines 137-148 catch whatever \<open>shutil.copy2\<close> raises.
\<close>

definition copy_file :: "bool \<Rightarrow> string \<Rightarrow> string \<Rightarrow> string \<Rightarrow> state \<Rightarrow> exn option \<times> state" where
  "copy_file dry_run source_file relative_path destination_file s =
     (case os_makedirs s (path_dirname destination_file) of
        Inl e \<Rightarrow> (Some e, s)
      | Inr s1 \<Rightarrow>
          if \<not> dry_run then
            (case shutil_copy2 s1 source_file destination_file of
               Inr s2 \<Rightarrow>
                 (None,
                  (log_append (''Copied: '' @ quoted relative_path)
                     (print_out (''  > Copied '' @ quoted relative_path) s2))
                  \<lparr>files_to_copy := files_to_copy s2 + 1\<rparr>)
             | Inl e \<Rightarrow>
                 if kind e = SameFileError then
                   (None,
                    (log_append (''Warning: Skipped '' @ quoted relative_path @
                                 '' because it already exists in the destination.'')
                       (print_err (''  > Warning: File '' @ quoted relative_path @
                                   '' is already in destination.'') s1))
                    \<lparr>files_skipped := files_skipped s1 + 1\<rparr>)
                 else if kind e = PermissionError then
                   (None,
                    (log_append (''Permission denied. Skipped: '' @ quoted relative_path)
                       (print_err (''  > Error: Permission denied for '' @ quoted relative_path @
                                   ''. Skipping.'') s1))
                    \<lparr>files_skipped := files_skipped s1 + 1\<rparr>)
                 else
                   (None,
                    (log_append (''Unexpected error. Skipped: '' @ quoted relative_path @
                                 '' due to error: '' @ str_exn e)
                       (print_err (''  > Unexpected error copying '' @ quoted relative_path @
                                   '': '' @ str_exn e) s1))
                    \<lparr>files_skipped := files_skipped s1 + 1\<rparr>))
          else
            (None,
             (log_append (''(Dry Run) Would copy: '' @ quoted relative_path)
                (print_out (''  > (Dry Run) Would copy '' @ quoted relative_path) s1))
             \<lparr>files_to_copy := files_to_copy s1 + 1\<rparr>))"

text \<open>Line 125: the diagnostic printed when a size cannot be read.\<close>

definition size_warning :: "string \<Rightarrow> exn \<Rightarrow> string" where
  "size_warning relative_path e =
     ''Error checking file size for '' @ quoted relative_path @ '': '' @ str_exn e @
     ''. Copying anyway.''"

text \<open>Lines 117-119: the file is skipped as identical.\<close>

definition skip_identical :: "string \<Rightarrow> state \<Rightarrow> state" where
  "skip_identical relative_path s =
     (log_append (''Skipped identical file: '' @ quoted relative_path)
        (print_out (''  > Skipping identical file: '' @ quoted relative_path) s))
     \<lparr>files_skipped := files_skipped s + 1\<rparr>"

text \<open>Lines 122-123: the file differs in size from the baseline's.\<close>

definition found_updated :: "string \<Rightarrow> state \<Rightarrow> state" where
  "found_updated relative_path s =
     log_append (''Found updated file: '' @ quoted relative_path)
       (print_out (''  > Found updated file: '' @ quoted relative_path) s)"

text \<open>Lines 105-152, the body of the loop for one file name of one directory.\<close>

definition process_file ::
  "string \<Rightarrow> string \<Rightarrow> bool \<Rightarrow> bool \<Rightarrow> string option \<Rightarrow> string \<Rightarrow> string \<Rightarrow> state \<Rightarrow> exn option \<times> state" where
  "process_file source_dir backup_path full_backup dry_run latest_backup_dir root filename s0 =
     (let s = s0\<lparr>total_files := total_files s0 + 1\<rparr>;
          source_file = path_join root filename;
          relative_path = path_relpath source_file source_dir;
          destination_file = path_join backup_path relative_path
      in case latest_backup_dir of
           None \<Rightarrow> copy_file dry_run source_file relative_path destination_file s
         | Some latest \<Rightarrow>
             if \<not> full_backup \<and> latest \<noteq> [] then
               (let latest_backup_file = path_join latest relative_path in
                if path_exists s latest_backup_file then
                  (case path_getsize s source_file of
                     Inl e \<Rightarrow>
                       copy_file dry_run source_file relative_path destination_file
                         (print_err (size_warning relative_path e) s)
                   | Inr size_source \<Rightarrow>
                       (case path_getsize s latest_backup_file of
                          Inl e \<Rightarrow>
                            copy_file dry_run source_file relative_path destination_file
                              (print_err (size_warning relative_path e) s)
                        | Inr size_latest \<Rightarrow>
                            if size_source = size_latest
                            then (None, skip_identical relative_path s)
                            else copy_file dry_run source_file relative_path destination_file
                                   (found_updated relative_path s)))
                else copy_file dry_run source_file relative_path destination_file s)
             else copy_file dry_run source_file relative_path destination_file s)"

text \<open>The two nested loops of lines 103-104 visit these (root, filename) pairs in
  this order.\<close>

definition walk_files :: "state \<Rightarrow> string \<Rightarrow> (string \<times> string) list" where
  "walk_files s source_dir =
     concat (map (\<lambda>(root, dirs, files). map (\<lambda>filename. (root, filename)) files)
                 (os_walk s source_dir))"

text \<open>The loop: an exception that the body does not catch ends it.\<close>

fun process_files ::
  "string \<Rightarrow> string \<Rightarrow> bool \<Rightarrow> bool \<Rightarrow> string option \<Rightarrow> (string \<times> string) list \<Rightarrow> state \<Rightarrow> exn option \<times> state" where
  "process_files source_dir backup_path full_backup dry_run latest_backup_dir [] s = (None, s)"
| "process_files source_dir backup_path full_backup dry_run latest_backup_dir ((root, filename) # rest) s =
     (case process_file source_dir backup_path full_backup dry_run latest_backup_dir root filename s of
        (Some e, s1) \<Rightarrow> (Some e, s1)
      | (None, s1) \<Rightarrow>
          process_files source_dir backup_path full_backup dry_run latest_backup_dir rest s1)"

text \<open>Lines 157-161: the header of the log file.\<close>

definition log_header :: "string \<Rightarrow> string \<Rightarrow> string \<Rightarrow> bool \<Rightarrow> bool \<Rightarrow> string" where
  "log_header timestamp source_dir destination_dir full_backup dry_run =
     ''Backup Log: '' @ timestamp @ [nl] @
     ''Source: '' @ source_dir @ [nl] @
     ''Destination: '' @ destination_dir @ [nl] @
     ''Backup Type: '' @ (if full_backup then ''Full'' else ''Incremental'') @ [nl] @
     ''Dry Run: '' @ (if dry_run then ''Yes'' else ''No'') @ [nl, nl]"

text \<open>Lines 157-164: everything written to the log file.\<close>

definition log_text :: "string \<Rightarrow> string \<Rightarrow> string \<Rightarrow> bool \<Rightarrow> bool \<Rightarrow> string list \<Rightarrow> string" where
  "log_text timestamp source_dir destination_dir full_backup dry_run messages =
     log_header timestamp source_dir destination_dir full_backup dry_run @
     ''--- Actions ---'' @ [nl] @
     concat (map (\<lambda>message. message @ [nl]) messages)"

text \<open>Lines 154-167: the log file is written; a failure is reported and nothing more.\<close>

definition write_log :: "string \<Rightarrow> string \<Rightarrow> string \<Rightarrow> string \<Rightarrow> bool \<Rightarrow> bool \<Rightarrow> state \<Rightarrow> state" where
  "write_log log_file_path timestamp source_dir destination_dir full_backup dry_run s =
     (case open_write s log_file_path
             (log_text timestamp source_dir destination_dir full_backup dry_run (log_messages s)) of
        Inr s1 \<Rightarrow> print_out (nl # ''Backup log saved to '' @ quoted log_file_path) s1
      | Inl e \<Rightarrow> print_err (nl # ''Error: Could not write backup log file: '' @ str_exn e) s)"

text \<open>Lines 169-174.\<close>

definition print_summary :: "bool \<Rightarrow> state \<Rightarrow> state" where
  "print_summary dry_run s =
     print_out ''----------------------''
       (print_out (''Files skipped: '' @ str_int (files_skipped s))
          (print_out (''Files '' @ (if dry_run then ''would be '' else []) @ ''copied: '' @
                      str_int (files_to_copy s))
             (print_out (''Total files in source: '' @ str_int (total_files s))
                (print_out (nl # ''--- Backup Summary ---'') s))))"

text \<open>
  How a call of \<open>run_backup\<close> ends: by one of the \<open>return\<close> statements of lines 60, 63
  and 85, by an exception nothing catches, or after the summary.
\<close>

datatype outcome = EarlyReturn | Raised exn | Completed

text \<open>Lines 71-77: the two opening messages and the empty list of log messages.\<close>

definition announce :: "string \<Rightarrow> bool \<Rightarrow> bool \<Rightarrow> state \<Rightarrow> state" where
  "announce source_dir full_backup dry_run s0 =
     (let s1 = (if dry_run
                then print_out (nl # ''*** DRY RUN MODE: No files will be copied. ***'' @ [nl]) s0
                else s0);
          s2 = print_out (''Starting '' @ (if full_backup then ''FULL'' else ''INCREMENTAL'') @
                          '' backup from '' @ quoted source_dir @ ''...'') s1
      in s2\<lparr>log_messages := []\<rparr>)"

text \<open>
  Lines 57-101 of \<open>run_backup\<close>, with the value of \<open>datetime.now()\<close> as a parameter:
  the validation, the new snapshot directory, the baseline and the counters. The
  result is \<open>Inl\<close> with the final state when one of the \<open>return\<close> statements of lines
  60, 63 and 85 is reached, and otherwise \<open>Inr\<close> with \<open>latest_backup_dir\<close> and the
  state in which the loop starts.
\<close>

definition prepare_run ::
  "datetime \<Rightarrow> string \<Rightarrow> string \<Rightarrow> bool \<Rightarrow> bool \<Rightarrow> state \<Rightarrow> state + (string option \<times> state)" where
  "prepare_run now source_dir destination_dir full_backup dry_run s0 =
     (if \<not> path_isdir s0 source_dir then
        Inl (print_err (''Error: Source path '' @ quoted source_dir @
                        '' is not a valid directory.'') s0)
      else if \<not> path_isdir s0 destination_dir then
        Inl (print_err (''Error: Destination path '' @ quoted destination_dir @
                        '' is not a valid directory.'') s0)
      else
        (let timestamp = strftime now;
             backup_folder_name = timestamp;
             backup_path = path_join destination_dir backup_folder_name;
             s3 = announce source_dir full_backup dry_run s0
         in case os_makedirs s3 backup_path of
              Inl e \<Rightarrow>
                Inl (print_err (''Error: Failed to create destination directory '' @
                                quoted backup_path @ '': '' @ str_exn e) s3)
            | Inr s4 \<Rightarrow>
                (let s5 = log_append (''Created new backup directory: '' @ quoted backup_path) s4;
                     (latest_backup_dir, s6) = resolve_baseline destination_dir full_backup s5
                 in Inr (latest_backup_dir,
                         s6\<lparr>files_to_copy := 0, files_skipped := 0, total_files := 0\<rparr>))))"

text \<open>
  \<open>run_backup(source_dir, destination_dir, full_backup, dry_run)\<close>, lines 45-174:
  the preparation, the loop over the files of the walk, the log file and the summary.
\<close>

definition run_backup ::
  "datetime \<Rightarrow> string \<Rightarrow> string \<Rightarrow> bool \<Rightarrow> bool \<Rightarrow> state \<Rightarrow> outcome \<times> state" where
  "run_backup now source_dir destination_dir full_backup dry_run s0 =
     (case prepare_run now source_dir destination_dir full_backup dry_run s0 of
        Inl s \<Rightarrow> (EarlyReturn, s)
      | Inr (latest_backup_dir, s7) \<Rightarrow>
          (let timestamp = strftime now;
               backup_path = path_join destination_dir timestamp;
               log_file_path = path_join backup_path ''backup_log.txt''
           in case process_files source_dir backup_path full_backup dry_run
                     latest_backup_dir (walk_files s7 source_dir) s7 of
                (Some e, s8) \<Rightarrow> (Raised e, s8)
              | (None, s8) \<Rightarrow>
                  (Completed,
                   print_summary dry_run
                     (write_log log_file_path timestamp source_dir destination_dir
                        full_backup dry_run s8))))"

text \<open>
  \<open>only_new_dirs t t'\<close>: the file system \<open>t'\<close> is \<open>t\<close> with directories added at paths
  where \<open>t\<close> has nothing; nothing else differs.
\<close>

definition only_new_dirs :: "fsys \<Rightarrow> fsys \<Rightarrow> bool" where
  "only_new_dirs t t' =
     (\<forall>p. lookup t' p = lookup t p \<or> (lookup t p = None \<and> lookup t' p = Some Dir))"

section \<open>Well-formed file systems\<close>

text \<open>A name a directory entry can have: not empty, without a separator, and not \<open>.\<close>.\<close>

definition valid_name :: "string \<Rightarrow> bool" where
  "valid_name n = (n \<noteq> [] \<and> sep \<notin> set n \<and> n \<noteq> ''.'')"

text \<open>Every component of every path of the file system is such a name.\<close>

definition valid_names :: "fsys \<Rightarrow> bool" where
  "valid_names t = list_all (\<lambda>(p, n). list_all valid_name p) t"

text \<open>Whatever exists lies in directories that exist: with a path the file system
  has every shorter path to it.\<close>

definition prefix_closed :: "fsys \<Rightarrow> bool" where
  "prefix_closed t =
     list_all (\<lambda>(p, n). list_all (\<lambda>q. lookup t q \<noteq> None) (ancestors p)) t"

text \<open>No path of the list is a prefix of a path before it in the list.\<close>

fun prefix_free :: "string list list \<Rightarrow> bool" where
  "prefix_free [] = True"
| "prefix_free (c # cs) = (list_all (\<lambda>c'. \<not> prefix c' c) cs \<and> prefix_free cs)"

text \<open>A path string that is not empty and does not start at the root.\<close>

definition relative :: "string \<Rightarrow> bool" where
  "relative b = (b \<noteq> [] \<and> hd b \<noteq> sep)"

text \<open>The component lists of the files a walk yields, in its order.\<close>

definition walked_paths :: "(string \<times> string list \<times> string list) list \<Rightarrow> string list list" where
  "walked_paths w =
     concat (map (\<lambda>(root, dirs, files).
                    map (\<lambda>filename. components (path_join root filename)) files) w)"

text \<open>
  \<open>file_below s d c\<close>: the path \<open>c\<close> lies below the directory \<open>d\<close>, is not a directory,
  and every path from \<open>d\<close> to it is one.
\<close>

definition file_below :: "state \<Rightarrow> string list \<Rightarrow> string list \<Rightarrow> bool" where
  "file_below s d c =
     (\<exists>r. c = d @ r \<and> r \<noteq> [] \<and> list_all valid_name r \<and> lookup (fs s) c \<noteq> Some Dir \<and>
          (\<forall>k<length r. lookup (fs s) (d @ take k r) = Some Dir))"

text \<open>
  For a (root, filename) pair of the walk: the components of \<open>destination_file\<close> and
  of its \<open>dirname\<close>, as the body of the loop computes them.
\<close>

definition dest_components :: "string \<Rightarrow> string \<Rightarrow> string \<times> string \<Rightarrow> string list" where
  "dest_components source_dir backup_path x =
     components (path_join backup_path (path_relpath (path_join (fst x) (snd x)) source_dir))"

definition dest_dirname :: "string \<Rightarrow> string \<Rightarrow> string \<times> string \<Rightarrow> string list" where
  "dest_dirname source_dir backup_path x =
     components (path_dirname
       (path_join backup_path (path_relpath (path_join (fst x) (snd x)) source_dir)))"





section \<open>The discovery that the specification describes\<close>

text \<open>
  Modelled from the spec: \<open>discover_latest\<close> "retains only those whose name parses
  exactly as the timestamp format", a "fixed-width zero-padded format", sorts the
  retained names in descending order and returns the path of the first, or "none".
  In a pattern \<open>D\<close> stands for one decimal digit and every other character for
  itself; a name of the exact form has the widths of \<open>DDDD-DD-DD_DD-DD-DD\<close> and
  denotes a date and a time of day.
\<close>

definition matches_pattern :: "string \<Rightarrow> string \<Rightarrow> bool" where
  "matches_pattern pattern n =
     list_all2 (\<lambda>p c. if p = CHR ''D'' then is_digit c else c = p) pattern n"

definition exact_timestamp :: "string \<Rightarrow> bool" where
  "exact_timestamp n = (matches_pattern ''DDDD-DD-DD_DD-DD-DD'' n \<and> strptime n \<noteq> None)"


section \<open>Example states\<close>

definition no_faults :: "syscall \<Rightarrow> string list \<Rightarrow> exn option" where
  "no_faults c p = None"

definition initial_state :: "fsys \<Rightarrow> (syscall \<Rightarrow> string list \<Rightarrow> exn option) \<Rightarrow> state" where
  "initial_state t f =
     \<lparr>fs = t, faults = f, out = [], err = [], log_messages = [],
      files_to_copy = 0, files_skipped = 0, total_files = 0\<rparr>"

definition noon :: datetime where
  "noon = \<lparr>year = 2024, month = 3, day = 1, hour = 12, minute = 0, second = 0\<rparr>"

text \<open>A source tree with a file at the top and one in a subdirectory, and an empty
  destination.\<close>

definition small_tree :: fsys where
  "small_tree =
     [([''src''], Dir), ([''src'', ''a.txt''], File ''hello''), ([''src'', ''sub''], Dir),
      ([''src'', ''sub'', ''b.txt''], File ''world!''), ([''dst''], Dir)]"

text \<open>Three source directories, and a destination in which the subdirectory \<open>sub\<close>
  of the new snapshot cannot be created.\<close>

definition three_dirs_tree :: fsys where
  "three_dirs_tree =
     [([''src''], Dir), ([''src'', ''a.txt''], File ''hello''),
      ([''src'', ''sub''], Dir), ([''src'', ''sub'', ''b.txt''], File ''world!''),
      ([''src'', ''zzz''], Dir), ([''src'', ''zzz'', ''c.txt''], File ''last''),
      ([''dst''], Dir)]"

definition mkdir_denied :: "syscall \<Rightarrow> string list \<Rightarrow> exn option" where
  "mkdir_denied c p =
     (if c = MkDir \<and> p = [''dst'', ''2024-03-01_12-00-00'', ''sub'']
      then Some (Exn PermissionError ''Permission denied'') else None)"

text \<open>Ten source files \<open>f0\<close> ... \<open>f9\<close>, of which \<open>f3\<close> cannot be read.\<close>

definition ten_files :: fsys where
  "ten_files =
     [([''src''], Dir), ([''dst''], Dir)] @
     map (\<lambda>k. ([''src'', ''f'' @ str_int k], File (str_int k))) [0..<10]"

definition copy_denied :: "syscall \<Rightarrow> string list \<Rightarrow> exn option" where
  "copy_denied c p =
     (if c = CopyFile \<and> p = [''src'', ''f3'']
      then Some (Exn PermissionError ''Permission denied'') else None)"

text \<open>
  A source and an older snapshot \<open>dst/old\<close>: \<open>same.txt\<close> has the same size in both
  (and another content), \<open>changed.txt\<close> has grown, \<open>new.txt\<close> is in the source only,
  and the size of the source's \<open>locked.txt\<close> cannot be read.
\<close>

definition baseline_tree :: fsys where
  "baseline_tree =
     [([''src''], Dir), ([''dst''], Dir), ([''dst'', ''old''], Dir),
      ([''src'', ''same.txt''], File ''hello''), ([''dst'', ''old'', ''same.txt''], File ''HELLO''),
      ([''src'', ''changed.txt''], File ''longer''), ([''dst'', ''old'', ''changed.txt''], File ''long''),
      ([''src'', ''new.txt''], File ''new''),
      ([''src'', ''locked.txt''], File ''secret''), ([''dst'', ''old'', ''locked.txt''], File ''secret'')]"

definition stat_denied :: "syscall \<Rightarrow> string list \<Rightarrow> exn option" where
  "stat_denied c p =
     (if c = Stat \<and> p = [''src'', ''locked.txt'']
      then Some (Exn PermissionError ''Permission denied'') else None)"


text \<open>A destination that cannot be listed.\<close>

definition listdir_denied :: "syscall \<Rightarrow> string list \<Rightarrow> exn option" where
  "listdir_denied c p =
     (if c = ListDir \<and> p = [''dst'']
      then Some (Exn PermissionError ''Permission denied'') else None)"

text \<open>A destination in which the log file cannot be opened for writing.\<close>

definition log_denied :: "syscall \<Rightarrow> string list \<Rightarrow> exn option" where
  "log_denied c p =
     (if c = OpenWrite \<and> p = [''dst'', ''2024-03-01_12-00-00'', ''backup_log.txt'']
      then Some (Exn PermissionError ''Permission denied'') else None)"

text \<open>Directories whose names contain a line break.\<close>

definition newline_tree :: fsys where
  "newline_tree =
     [([''x'' @ [nl] @ ''Destination: y''], Dir), ([''z''], Dir),
      ([''x''], Dir), ([''y'' @ [nl] @ ''Destination: z''], Dir)]"

text \<open>A source file that an older snapshot holds with the same content.\<close>

definition older_snapshot_tree :: fsys where
  "older_snapshot_tree =
     [([''src''], Dir), ([''src'', ''a.txt''], File ''hello''), ([''dst''], Dir),
      ([''dst'', ''2024-01-01_00-00-00''], Dir),
      ([''dst'', ''2024-01-01_00-00-00'', ''a.txt''], File ''hello'')]"



section \<open>Properties\<close>

subsection \<open>What the calls leave unchanged\<close>

lemma os_makedirs_frame: "os_makedirs s p = Inr s' \<Longrightarrow> \<exists>t. s' = s\<lparr>fs := t\<rparr>"
  by (auto simp: os_makedirs_def Let_def split: if_splits option.splits)

lemma open_write_frame: "open_write s p c = Inr s' \<Longrightarrow> s' = s\<lparr>fs := (components p, File c) # fs s\<rparr>"
  by (auto simp: open_write_def Let_def split: if_splits option.splits node.splits)

lemma shutil_copy2_frame: "shutil_copy2 s src dst = Inr s' \<Longrightarrow> \<exists>t. s' = s\<lparr>fs := t\<rparr>"
  by (auto simp: shutil_copy2_def Let_def split: if_splits option.splits node.splits dest!: open_write_frame)

subsection \<open>The counters\<close>

lemma copy_file_counts:
  assumes "copy_file dry_run source_file relative_path destination_file s = (None, s')"
  shows "total_files s' = total_files s \<and>
         files_to_copy s' + files_skipped s' = Suc (files_to_copy s + files_skipped s)"
  using assms
  by (auto simp: copy_file_def print_out_def print_err_def log_append_def
           split: sum.splits if_splits dest!: os_makedirs_frame shutil_copy2_frame)

lemma process_file_counts:
  assumes "process_file source_dir backup_path full_backup dry_run latest root filename s = (None, s')"
  shows "total_files s' = Suc (total_files s) \<and>
         files_to_copy s' + files_skipped s' = Suc (files_to_copy s + files_skipped s)"
  using assms
  by (auto simp: process_file_def Let_def skip_identical_def found_updated_def
                 print_out_def print_err_def log_append_def
           split: option.splits sum.splits if_splits dest!: copy_file_counts)

lemma process_files_counts:
  assumes "process_files source_dir backup_path full_backup dry_run latest files s = (None, s')"
  shows "total_files s' = total_files s + length files \<and>
         files_to_copy s' + files_skipped s' = files_to_copy s + files_skipped s + length files"
  using assms
proof (induction files arbitrary: s)
  case Nil
  then show ?case by simp
next
  case (Cons x files)
  obtain root filename where x: "x = (root, filename)" by (cases x)
  from Cons.prems x obtain s1 where
    step: "process_file source_dir backup_path full_backup dry_run latest root filename s = (None, s1)"
    and rest: "process_files source_dir backup_path full_backup dry_run latest files s1 = (None, s')"
    by (auto split: prod.splits option.splits)
  from process_file_counts [OF step] Cons.IH [OF rest] show ?case by simp
qed

lemma write_log_counts:
  "total_files (write_log p ts a b f d s) = total_files s \<and>
   files_to_copy (write_log p ts a b f d s) = files_to_copy s \<and>
   files_skipped (write_log p ts a b f d s) = files_skipped s"
  by (auto simp: write_log_def print_out_def print_err_def split: sum.splits dest!: open_write_frame)

lemma print_summary_counts:
  "total_files (print_summary d s) = total_files s \<and>
   files_to_copy (print_summary d s) = files_to_copy s \<and>
   files_skipped (print_summary d s) = files_skipped s"
  by (simp add: print_summary_def print_out_def)

text \<open>
  C2: a run that reaches its summary has counted every file once, as copied (or would
  be copied) or as skipped: \<open>total_files = files_to_copy + files_skipped\<close>. The loop
  adds one to \<open>total_files\<close> and one to exactly one of the other two for each file it
  gets through.
\<close>

theorem summary_counts_consistent:
  "(run_backup now source_dir destination_dir full_backup dry_run s0 = (Completed, s') \<longrightarrow>
      total_files s' = files_to_copy s' + files_skipped s') \<and>
   (process_files source_dir backup_path full_backup dry_run latest files s = (None, s1) \<longrightarrow>
      total_files s1 = total_files s + length files \<and>
      files_to_copy s1 + files_skipped s1 = files_to_copy s + files_skipped s + length files)"
proof (intro conjI impI)
  assume run: "run_backup now source_dir destination_dir full_backup dry_run s0 = (Completed, s')"
  then obtain latest' s7 s8 where
    loop: "process_files source_dir (path_join destination_dir (strftime now)) full_backup dry_run
             latest' (walk_files s7 source_dir) s7 = (None, s8)"
    and init: "total_files s7 = 0" "files_to_copy s7 = 0" "files_skipped s7 = 0"
    and fin: "s' = print_summary dry_run
                (write_log (path_join (path_join destination_dir (strftime now)) ''backup_log.txt'')
                   (strftime now) source_dir destination_dir full_backup dry_run s8)"
    by (auto simp: run_backup_def prepare_run_def Let_def
             split: if_splits sum.splits prod.splits option.splits)
  from process_files_counts [OF loop] init
  have "total_files s8 = files_to_copy s8 + files_skipped s8" by simp
  with fin show "total_files s' = files_to_copy s' + files_skipped s'"
    by (simp add: print_summary_counts write_log_counts)
next
  assume "process_files source_dir backup_path full_backup dry_run latest files s = (None, s1)"
  from process_files_counts [OF this]
  show "total_files s1 = total_files s + length files"
    and "files_to_copy s1 + files_skipped s1 = files_to_copy s + files_skipped s + length files"
    by simp_all
qed

lemma small_run_completes:
  "fst (run_backup noon ''src'' ''dst'' False False (initial_state small_tree no_faults)) = Completed"
  by code_simp

lemma small_run_total:
  "total_files (snd (run_backup noon ''src'' ''dst'' False False (initial_state small_tree no_faults))) = 2"
  by code_simp

theorem summary_counts_consistent_witness:
  "fst (run_backup noon ''src'' ''dst'' False False (initial_state small_tree no_faults)) = Completed \<and>
   total_files (snd (run_backup noon ''src'' ''dst'' False False (initial_state small_tree no_faults))) = 2 \<and>
   files_to_copy (snd (run_backup noon ''src'' ''dst'' False False (initial_state small_tree no_faults))) +
   files_skipped (snd (run_backup noon ''src'' ''dst'' False False (initial_state small_tree no_faults))) = 2"
proof -
  let ?r = "run_backup noon ''src'' ''dst'' False False (initial_state small_tree no_faults)"
  have run: "?r = (Completed, snd ?r)"
    using small_run_completes by (metis prod.collapse)
  have "total_files (snd ?r) = files_to_copy (snd ?r) + files_skipped (snd ?r)"
    using summary_counts_consistent [of noon "''src''" "''dst''" False False
            "initial_state small_tree no_faults" "snd ?r"] run
    by blast
  with small_run_completes small_run_total show ?thesis by simp
qed

subsection \<open>Validation\<close>

text \<open>
  C9: when the source or the destination is not a directory, \<open>run_backup\<close> returns
  at once: it prints one diagnostic to standard error and changes nothing else (no
  snapshot directory, no copy, no log file, nothing on standard output).
\<close>

theorem invalid_paths_abort_without_effects:
  assumes "\<not> path_isdir s source_dir \<or> \<not> path_isdir s destination_dir"
  shows "fst (run_backup now source_dir destination_dir full_backup dry_run s) = EarlyReturn \<and>
         fs (snd (run_backup now source_dir destination_dir full_backup dry_run s)) = fs s \<and>
         out (snd (run_backup now source_dir destination_dir full_backup dry_run s)) = out s \<and>
         log_messages (snd (run_backup now source_dir destination_dir full_backup dry_run s)) = log_messages s \<and>
         err (snd (run_backup now source_dir destination_dir full_backup dry_run s)) =
           err s @ [if \<not> path_isdir s source_dir
                    then ''Error: Source path '' @ quoted source_dir @ '' is not a valid directory.''
                    else ''Error: Destination path '' @ quoted destination_dir @ '' is not a valid directory.'']"
  using assms by (auto simp: run_backup_def prepare_run_def print_err_def)

theorem invalid_paths_abort_without_effects_witness:
  "\<not> path_isdir (initial_state small_tree no_faults) ''src/a.txt'' \<and>
   fst (run_backup noon ''src/a.txt'' ''dst'' False False (initial_state small_tree no_faults)) = EarlyReturn \<and>
   fs (snd (run_backup noon ''src/a.txt'' ''dst'' False False (initial_state small_tree no_faults))) = small_tree"
proof -
  have h: "\<not> path_isdir (initial_state small_tree no_faults) ''src/a.txt''"
    by code_simp
  have f: "fs (initial_state small_tree no_faults) = small_tree"
    by (simp add: initial_state_def)
  from invalid_paths_abort_without_effects [of "initial_state small_tree no_faults" "''src/a.txt''" "''dst''" noon False False] h f
  show ?thesis by simp
qed


subsection \<open>Discovery of the latest snapshot\<close>

lemma sorted_le_last:
  fixes xs :: "'a::linorder list"
  shows "sorted xs \<Longrightarrow> x \<in> set xs \<Longrightarrow> x \<le> last xs"
  by (induction xs) auto

lemma hd_rev_sort_Max:
  fixes xs :: "'a::linorder list"
  assumes "xs \<noteq> []"
  shows "hd (rev (sort xs)) = Max (set xs)"
proof -
  have ne: "sort xs \<noteq> []" using assms by (metis length_0_conv length_sort)
  have "hd (rev (sort xs)) = last (sort xs)"
    using ne by (simp add: hd_rev)
  also have "last (sort xs) = Max (set xs)"
  proof (rule Max_eqI [symmetric])
    show "finite (set xs)" by simp
    show "y \<le> last (sort xs)" if "y \<in> set xs" for y
      using sorted_le_last [of "sort xs" y] that by simp
    show "last (sort xs) \<in> set xs"
      using last_in_set [OF ne] by simp
  qed
  finally show ?thesis .
qed

lemma find_latest_backup_listing:
  assumes l: "os_listdir s destination_dir = Inr entries"
    and sn: "snapshots = filter (\<lambda>entry. path_isdir s (path_join destination_dir entry) \<and>
                                       strptime entry \<noteq> None) entries"
  shows "find_latest_backup destination_dir s =
          (if snapshots = [] then None
           else Some (path_join destination_dir (Max (set snapshots))), s)"
proof -
  have fl: "find_latest_backup destination_dir s =
              (case rev (sort snapshots) of
                 [] \<Rightarrow> (None, s)
               | newest # older \<Rightarrow> (Some (path_join destination_dir newest), s))"
    unfolding find_latest_backup_def l sn Let_def
    by (simp only: sum.case)
  show ?thesis
  proof (cases "snapshots = []")
    case True
    with fl show ?thesis by simp
  next
    case False
    then have "rev (sort snapshots) \<noteq> []"
      by (metis length_0_conv length_sort rev_is_Nil_conv)
    then obtain newest older where r: "rev (sort snapshots) = newest # older"
      by (cases "rev (sort snapshots)") auto
    then have "newest = hd (rev (sort snapshots))" by simp
    with hd_rev_sort_Max [OF False] have "newest = Max (set snapshots)" by simp
    with fl r False show ?thesis by simp
  qed
qed







text \<open>A day padded with a blank is accepted as well.\<close>

lemma blank_padded_day_parses:
  "strptime ''2024-01- 1_00-00-00'' \<noteq> None \<and> \<not> exact_timestamp ''2024-01- 1_00-00-00''"
  by code_simp

subsection \<open>The decision for one file\<close>

text \<open>
  C1: what the body of the loop does with one file. In full mode, or without a
  baseline, the file goes to the copy (lines 127-152). In incremental mode with a
  baseline: a file that the baseline does not have is copied; a file that it has with
  the same size is skipped (nothing is created, \<open>files_skipped\<close> grows); with another
  size it is copied, after "Found updated file"; and when a size cannot be read the
  file is copied after a warning on standard error.
\<close>

theorem copy_or_skip_decision:
  "(let s = s0\<lparr>total_files := total_files s0 + 1\<rparr>;
        source_file = path_join root filename;
        relative_path = path_relpath source_file source_dir;
        destination_file = path_join backup_path relative_path;
        step = process_file source_dir backup_path full_backup dry_run latest_backup_dir root filename s0;
        copy = copy_file dry_run source_file relative_path destination_file
    in (full_backup \<or> latest_backup_dir = None \<longrightarrow> step = copy s) \<and>
       (\<forall>latest. \<not> full_backup \<and> latest_backup_dir = Some latest \<and> latest \<noteq> [] \<longrightarrow>
          (\<not> path_exists s (path_join latest relative_path) \<longrightarrow> step = copy s) \<and>
          (path_exists s (path_join latest relative_path) \<longrightarrow>
             (\<forall>a b. path_getsize s source_file = Inr a \<and>
                    path_getsize s (path_join latest relative_path) = Inr b \<longrightarrow>
                    (a = b \<longrightarrow> step = (None, skip_identical relative_path s)) \<and>
                    (a \<noteq> b \<longrightarrow> step = copy (found_updated relative_path s))) \<and>
             (\<forall>e. path_getsize s source_file = Inl e \<longrightarrow>
                    step = copy (print_err (size_warning relative_path e) s)) \<and>
             (\<forall>a e. path_getsize s source_file = Inr a \<and>
                    path_getsize s (path_join latest relative_path) = Inl e \<longrightarrow>
                    step = copy (print_err (size_warning relative_path e) s)))))"
  by (auto simp: process_file_def Let_def split: option.splits)

lemma skip_changes_no_file:
  "fs (skip_identical relative_path s) = fs s \<and>
   files_skipped (skip_identical relative_path s) = files_skipped s + 1 \<and>
   files_to_copy (skip_identical relative_path s) = files_to_copy s"
  by (simp add: skip_identical_def log_append_def print_out_def)

lemma baseline_facts:
  "(let s = (initial_state baseline_tree stat_denied)\<lparr>total_files := 1\<rparr> in
      path_relpath (path_join ''src'' ''same.txt'') ''src'' = ''same.txt'' \<and>
      path_relpath (path_join ''src'' ''changed.txt'') ''src'' = ''changed.txt'' \<and>
      path_relpath (path_join ''src'' ''new.txt'') ''src'' = ''new.txt'' \<and>
      path_relpath (path_join ''src'' ''locked.txt'') ''src'' = ''locked.txt'' \<and>
      path_exists s ''dst/old/same.txt'' \<and>
      path_getsize s ''src/same.txt'' = Inr 5 \<and>
      path_getsize s ''dst/old/same.txt'' = Inr 5 \<and>
      path_exists s ''dst/old/changed.txt'' \<and>
      path_getsize s ''src/changed.txt'' = Inr 6 \<and>
      path_getsize s ''dst/old/changed.txt'' = Inr 4 \<and>
      \<not> path_exists s ''dst/old/new.txt'' \<and>
      path_exists s ''dst/old/locked.txt'' \<and>
      path_getsize s ''src/locked.txt'' = Inl (Exn PermissionError ''Permission denied''))"
  by code_simp

theorem copy_or_skip_decision_witness:
  "(let s = (initial_state baseline_tree stat_denied)\<lparr>total_files := 1\<rparr>;
        step = process_file ''src'' ''dst/new'' False False (Some ''dst/old'') ''src'';
        copy = copy_file False
    in path_getsize s ''src/same.txt'' = Inr 5 \<and>
       path_getsize s ''dst/old/same.txt'' = Inr 5 \<and>
       step ''same.txt'' (initial_state baseline_tree stat_denied) =
         (None, skip_identical ''same.txt'' s) \<and>
       path_getsize s ''src/changed.txt'' = Inr 6 \<and>
       path_getsize s ''dst/old/changed.txt'' = Inr 4 \<and>
       step ''changed.txt'' (initial_state baseline_tree stat_denied) =
         copy ''src/changed.txt'' ''changed.txt'' ''dst/new/changed.txt'' (found_updated ''changed.txt'' s) \<and>
       \<not> path_exists s ''dst/old/new.txt'' \<and>
       step ''new.txt'' (initial_state baseline_tree stat_denied) =
         copy ''src/new.txt'' ''new.txt'' ''dst/new/new.txt'' s \<and>
       path_getsize s ''src/locked.txt'' = Inl (Exn PermissionError ''Permission denied'') \<and>
       step ''locked.txt'' (initial_state baseline_tree stat_denied) =
         copy ''src/locked.txt'' ''locked.txt'' ''dst/new/locked.txt''
           (print_err (size_warning ''locked.txt'' (Exn PermissionError ''Permission denied'')) s) \<and>
       process_file ''src'' ''dst/new'' True False None ''src'' ''same.txt''
           (initial_state baseline_tree stat_denied) =
         copy ''src/same.txt'' ''same.txt'' ''dst/new/same.txt'' s)"
proof -
  let ?s0 = "initial_state baseline_tree stat_denied"
  have s: "?s0\<lparr>total_files := total_files ?s0 + 1\<rparr> = ?s0\<lparr>total_files := 1\<rparr>"
    by (simp add: initial_state_def)
  have j: "path_join ''src'' ''same.txt'' = ''src/same.txt''"
          "path_join ''src'' ''changed.txt'' = ''src/changed.txt''"
          "path_join ''src'' ''new.txt'' = ''src/new.txt''"
          "path_join ''src'' ''locked.txt'' = ''src/locked.txt''"
          "path_join ''dst/old'' ''same.txt'' = ''dst/old/same.txt''"
          "path_join ''dst/old'' ''changed.txt'' = ''dst/old/changed.txt''"
          "path_join ''dst/old'' ''new.txt'' = ''dst/old/new.txt''"
          "path_join ''dst/old'' ''locked.txt'' = ''dst/old/locked.txt''"
          "path_join ''dst/new'' ''same.txt'' = ''dst/new/same.txt''"
          "path_join ''dst/new'' ''changed.txt'' = ''dst/new/changed.txt''"
          "path_join ''dst/new'' ''new.txt'' = ''dst/new/new.txt''"
          "path_join ''dst/new'' ''locked.txt'' = ''dst/new/locked.txt''"
    by (simp_all add: path_join_def sep_def)
  note f = baseline_facts [unfolded Let_def j]
  have same: "process_file ''src'' ''dst/new'' False False (Some ''dst/old'') ''src'' ''same.txt'' ?s0 =
      (None, skip_identical ''same.txt'' (?s0\<lparr>total_files := 1\<rparr>))"
    using copy_or_skip_decision [of ?s0 "''src''" "''same.txt''" "''src''" "''dst/new''" False False
            "Some ''dst/old''", unfolded Let_def s j] f
    by (simp add: j)
  have changed: "process_file ''src'' ''dst/new'' False False (Some ''dst/old'') ''src'' ''changed.txt'' ?s0 =
      copy_file False ''src/changed.txt'' ''changed.txt'' ''dst/new/changed.txt''
        (found_updated ''changed.txt'' (?s0\<lparr>total_files := 1\<rparr>))"
    using copy_or_skip_decision [of ?s0 "''src''" "''changed.txt''" "''src''" "''dst/new''" False False
            "Some ''dst/old''", unfolded Let_def s j] f
    by (simp add: j)
  have new: "process_file ''src'' ''dst/new'' False False (Some ''dst/old'') ''src'' ''new.txt'' ?s0 =
      copy_file False ''src/new.txt'' ''new.txt'' ''dst/new/new.txt'' (?s0\<lparr>total_files := 1\<rparr>)"
    using copy_or_skip_decision [of ?s0 "''src''" "''new.txt''" "''src''" "''dst/new''" False False
            "Some ''dst/old''", unfolded Let_def s j] f
    by (simp add: j)
  have locked: "process_file ''src'' ''dst/new'' False False (Some ''dst/old'') ''src'' ''locked.txt'' ?s0 =
      copy_file False ''src/locked.txt'' ''locked.txt'' ''dst/new/locked.txt''
        (print_err (size_warning ''locked.txt'' (Exn PermissionError ''Permission denied''))
           (?s0\<lparr>total_files := 1\<rparr>))"
    using copy_or_skip_decision [of ?s0 "''src''" "''locked.txt''" "''src''" "''dst/new''" False False
            "Some ''dst/old''", unfolded Let_def s j] f
    by (simp add: j)
  have full: "process_file ''src'' ''dst/new'' True False None ''src'' ''same.txt'' ?s0 =
      copy_file False ''src/same.txt'' ''same.txt'' ''dst/new/same.txt'' (?s0\<lparr>total_files := 1\<rparr>)"
    using copy_or_skip_decision [of ?s0 "''src''" "''same.txt''" "''src''" "''dst/new''" True False None,
            unfolded Let_def s j] f
    by (simp add: j)
  from same changed new locked full f show ?thesis
    by (simp add: Let_def)
qed

subsection \<open>Failures while a file is processed\<close>

text \<open>
  C6: a failure to create an intermediate directory for one file should cost that
  file only. \<open>os.makedirs\<close> on line 128 stands outside every \<open>try\<close>, so the
  exception leaves \<open>run_backup\<close>: here the second of three files cannot get its
  directory, the third file is never looked at, nothing is counted as skipped, and no
  log file is written.
\<close>

theorem makedirs_failure_aborts_run:
  "(case run_backup noon ''src'' ''dst'' False False (initial_state three_dirs_tree mkdir_denied) of
      (result, s) \<Rightarrow>
        result = Raised (Exn PermissionError ''Permission denied'') \<and>
        total_files s = 2 \<and> files_to_copy s = 1 \<and> files_skipped s = 0 \<and>
        lookup (fs s) [''dst'', ''2024-03-01_12-00-00'', ''zzz'', ''c.txt''] = None \<and>
        lookup (fs s) [''dst'', ''2024-03-01_12-00-00'', ''backup_log.txt''] = None \<and>
        log_messages s =
          [''Created new backup directory: '' @ quoted ''dst/2024-03-01_12-00-00'',
           ''Performing incremental backup against: '' @ quoted ''dst/2024-03-01_12-00-00'',
           ''Copied: '' @ quoted ''a.txt''])"
  by code_simp

text \<open>
  C8: an incremental run that finds no earlier snapshot should record in its log that
  it falls back to a full backup. The new snapshot directory is created (line 81)
  before the destination is searched (line 90), so on a destination without any
  snapshot the run finds its own directory: the log names it as the baseline and the
  fallback is not recorded.
\<close>

theorem first_incremental_run_logs_no_degradation:
  "os_listdir (initial_state small_tree no_faults) ''dst'' = Inr [] \<and>
   (case run_backup noon ''src'' ''dst'' False False (initial_state small_tree no_faults) of
      (result, s) \<Rightarrow>
        result = Completed \<and>
        log_messages s =
          [''Created new backup directory: '' @ quoted ''dst/2024-03-01_12-00-00'',
           ''Performing incremental backup against: '' @ quoted ''dst/2024-03-01_12-00-00'',
           ''Copied: '' @ quoted ''a.txt'',
           ''Copied: '' @ quoted ''sub/b.txt''] \<and>
        ''No previous backups found. Performing a full backup.'' \<notin> set (log_messages s))"
  by code_simp

lemma ten_files_run:
  "(case run_backup noon ''src'' ''dst'' False False (initial_state ten_files copy_denied) of
      (result, s) \<Rightarrow>
        result = Completed \<and> total_files s = 10 \<and> files_to_copy s = 9 \<and> files_skipped s = 1 \<and>
        map (\<lambda>k. lookup (fs s) [''dst'', ''2024-03-01_12-00-00'', ''f'' @ str_int k]) [0..<10] =
        map (\<lambda>k. if k = 3 then None else Some (File (str_int k))) [0..<10] \<and>
        ''Permission denied. Skipped: '' @ quoted ''f3'' \<in> set (log_messages s))"
  by code_simp

lemma copy_file_failure:
  assumes "os_makedirs s (path_dirname destination_file) = Inr s1"
    and "shutil_copy2 s1 source_file destination_file = Inl e"
  shows "copy_file False source_file relative_path destination_file s =
           (None, s1\<lparr>err := err s1 @
                        [if kind e = SameFileError
                         then ''  > Warning: File '' @ quoted relative_path @
                              '' is already in destination.''
                         else if kind e = PermissionError
                         then ''  > Error: Permission denied for '' @ quoted relative_path @
                              ''. Skipping.''
                         else ''  > Unexpected error copying '' @ quoted relative_path @
                              '': '' @ str_exn e],
                      log_messages := log_messages s1 @
                        [if kind e = SameFileError
                         then ''Warning: Skipped '' @ quoted relative_path @
                              '' because it already exists in the destination.''
                         else if kind e = PermissionError
                         then ''Permission denied. Skipped: '' @ quoted relative_path
                         else ''Unexpected error. Skipped: '' @ quoted relative_path @
                              '' due to error: '' @ str_exn e],
                      files_skipped := files_skipped s1 + 1\<rparr>)"
  using assms by (simp add: copy_file_def print_err_def log_append_def)

text \<open>
  C7: in a run that is not a dry run, whatever \<open>shutil.copy2\<close> raises for a file is
  caught there: a diagnostic goes to standard error, the log gets a line with the
  relative path (and the reason, for an error that is neither a same-file collision
  nor a denied permission), the file is counted as skipped, no exception leaves the
  body, and the loop goes on with the remaining files. Of ten files of which the
  fourth cannot be read, the other nine are copied.
\<close>

theorem copy_failure_is_isolated:
  "(os_makedirs s (path_dirname destination_file) = Inr s1 \<and>
    shutil_copy2 s1 source_file destination_file = Inl e \<longrightarrow>
      (\<exists>diagnostic.
         copy_file False source_file relative_path destination_file s =
           (None, s1\<lparr>err := err s1 @ [diagnostic],
                      log_messages := log_messages s1 @
                        [if kind e = SameFileError
                         then ''Warning: Skipped '' @ quoted relative_path @
                              '' because it already exists in the destination.''
                         else if kind e = PermissionError
                         then ''Permission denied. Skipped: '' @ quoted relative_path
                         else ''Unexpected error. Skipped: '' @ quoted relative_path @
                              '' due to error: '' @ str_exn e],
                      files_skipped := files_skipped s1 + 1\<rparr>))) \<and>
   (process_file source_dir backup_path full_backup dry_run latest root filename s = (None, s') \<longrightarrow>
      process_files source_dir backup_path full_backup dry_run latest ((root, filename) # rest) s =
      process_files source_dir backup_path full_backup dry_run latest rest s') \<and>
   (case run_backup noon ''src'' ''dst'' False False (initial_state ten_files copy_denied) of
      (result, s) \<Rightarrow>
        result = Completed \<and> total_files s = 10 \<and> files_to_copy s = 9 \<and> files_skipped s = 1 \<and>
        map (\<lambda>k. lookup (fs s) [''dst'', ''2024-03-01_12-00-00'', ''f'' @ str_int k]) [0..<10] =
        map (\<lambda>k. if k = 3 then None else Some (File (str_int k))) [0..<10] \<and>
        ''Permission denied. Skipped: '' @ quoted ''f3'' \<in> set (log_messages s))"
proof (intro conjI impI)
  assume h: "os_makedirs s (path_dirname destination_file) = Inr s1 \<and>
             shutil_copy2 s1 source_file destination_file = Inl e"
  show "\<exists>diagnostic.
         copy_file False source_file relative_path destination_file s =
           (None, s1\<lparr>err := err s1 @ [diagnostic],
                      log_messages := log_messages s1 @
                        [if kind e = SameFileError
                         then ''Warning: Skipped '' @ quoted relative_path @
                              '' because it already exists in the destination.''
                         else if kind e = PermissionError
                         then ''Permission denied. Skipped: '' @ quoted relative_path
                         else ''Unexpected error. Skipped: '' @ quoted relative_path @
                              '' due to error: '' @ str_exn e],
                      files_skipped := files_skipped s1 + 1\<rparr>)"
    using copy_file_failure [of s destination_file s1 source_file e relative_path] h
    by blast
next
  assume "process_file source_dir backup_path full_backup dry_run latest root filename s = (None, s')"
  then show "process_files source_dir backup_path full_backup dry_run latest ((root, filename) # rest) s =
             process_files source_dir backup_path full_backup dry_run latest rest s'"
    by simp
next
  show "case run_backup noon ''src'' ''dst'' False False (initial_state ten_files copy_denied) of
      (result, s) \<Rightarrow>
        result = Completed \<and> total_files s = 10 \<and> files_to_copy s = 9 \<and> files_skipped s = 1 \<and>
        map (\<lambda>k. lookup (fs s) [''dst'', ''2024-03-01_12-00-00'', ''f'' @ str_int k]) [0..<10] =
        map (\<lambda>k. if k = 3 then None else Some (File (str_int k))) [0..<10] \<and>
        ''Permission denied. Skipped: '' @ quoted ''f3'' \<in> set (log_messages s)"
    by (rule ten_files_run)
qed

lemma denied_makedirs: "os_makedirs (initial_state ten_files copy_denied) (path_dirname ''dst/f3'') =
   Inr (initial_state ten_files copy_denied)"
proof -
  have "case os_makedirs (initial_state ten_files copy_denied) (path_dirname ''dst/f3'') of
          Inr s1 \<Rightarrow> fs s1 = fs (initial_state ten_files copy_denied) | Inl e \<Rightarrow> False"
    by code_simp
  then show ?thesis
    by (auto split: sum.splits dest!: os_makedirs_frame)
qed


lemma denied_copy:
  "shutil_copy2 (initial_state ten_files copy_denied) ''src/f3'' ''dst/f3'' =
     Inl (Exn PermissionError ''Permission denied'')"
proof -
  have "case shutil_copy2 (initial_state ten_files copy_denied) ''src/f3'' ''dst/f3'' of
          Inl e \<Rightarrow> e = Exn PermissionError ''Permission denied'' | Inr s1 \<Rightarrow> False"
    by code_simp
  then show ?thesis
    by (simp split: sum.splits)
qed

theorem copy_failure_is_isolated_witness:
  "os_makedirs (initial_state ten_files copy_denied) (path_dirname ''dst/f3'') =
     Inr (initial_state ten_files copy_denied) \<and>
   shutil_copy2 (initial_state ten_files copy_denied) ''src/f3'' ''dst/f3'' =
     Inl (Exn PermissionError ''Permission denied'') \<and>
   fst (copy_file False ''src/f3'' ''f3'' ''dst/f3'' (initial_state ten_files copy_denied)) = None \<and>
   files_skipped (snd (copy_file False ''src/f3'' ''f3'' ''dst/f3'' (initial_state ten_files copy_denied))) = 1 \<and>
   log_messages (snd (copy_file False ''src/f3'' ''f3'' ''dst/f3'' (initial_state ten_files copy_denied))) =
     [''Permission denied. Skipped: '' @ quoted ''f3''] \<and>
   fs (snd (copy_file False ''src/f3'' ''f3'' ''dst/f3'' (initial_state ten_files copy_denied))) = ten_files"
proof -
  let ?s = "initial_state ten_files copy_denied"
  let ?e = "Exn PermissionError ''Permission denied''"
  from copy_failure_is_isolated [of ?s "''dst/f3''" ?s "''src/f3''" ?e "''f3''"]
       denied_makedirs denied_copy
  obtain diagnostic where
    "copy_file False ''src/f3'' ''f3'' ''dst/f3'' ?s =
       (None, ?s\<lparr>err := err ?s @ [diagnostic],
                  log_messages := log_messages ?s @ [''Permission denied. Skipped: '' @ quoted ''f3''],
                  files_skipped := files_skipped ?s + 1\<rparr>)"
    by auto
  then show ?thesis
    using denied_makedirs denied_copy by (simp add: initial_state_def)
qed

subsection \<open>Dry runs\<close>



lemma map_of_new_dirs:
  "map_of (map (\<lambda>p. (p, Dir)) ps @ t) q = (if q \<in> set ps then Some Dir else map_of t q)"
  by (induction ps) auto

lemma lookup_new_dirs:
  assumes "\<forall>p \<in> set ps. lookup t p = None"
  shows "lookup (map (\<lambda>p. (p, Dir)) ps @ t) q = (if q \<in> set ps then Some Dir else lookup t q)"
proof (cases "q = []")
  case True
  with assms have "q \<notin> set ps" by (auto simp: lookup_def)
  with True show ?thesis by (simp add: lookup_def)
next
  case False
  then show ?thesis by (simp add: lookup_def map_of_new_dirs del: map_of_append)
qed

lemma os_makedirs_fs:
  assumes "os_makedirs s name = Inr s'"
  shows "fs s' = map (\<lambda>p. (p, Dir))
                   (filter (\<lambda>p. lookup (fs s) p = None) (ancestors (components name))) @ fs s"
  using assms by (auto simp: os_makedirs_def Let_def split: if_splits option.splits)

lemma os_makedirs_lookup:
  assumes "os_makedirs s name = Inr s'"
  shows "lookup (fs s') q =
           (if q \<in> set (ancestors (components name)) \<and> lookup (fs s) q = None
            then Some Dir else lookup (fs s) q)"
  using lookup_new_dirs [of "filter (\<lambda>p. lookup (fs s) p = None) (ancestors (components name))" "fs s" q]
  by (auto simp: os_makedirs_fs [OF assms])

lemma os_makedirs_only_new_dirs:
  "os_makedirs s name = Inr s' \<Longrightarrow> only_new_dirs (fs s) (fs s')"
  by (simp add: only_new_dirs_def os_makedirs_lookup)





lemma resolve_baseline_fs:
  "resolve_baseline destination_dir full_backup s = (latest, s') \<Longrightarrow> fs s' = fs s"
  by (auto simp: resolve_baseline_def find_latest_backup_def Let_def log_append_def
                 print_out_def print_err_def
           split: if_splits prod.splits option.splits sum.splits list.splits)

lemma announce_frame:
  "fs (announce source_dir full_backup dry_run s) = fs s \<and>
   faults (announce source_dir full_backup dry_run s) = faults s \<and>
   err (announce source_dir full_backup dry_run s) = err s \<and>
   log_messages (announce source_dir full_backup dry_run s) = []"
  by (simp add: announce_def Let_def print_out_def)


lemma prepare_run_Inr:
  assumes "prepare_run now source_dir destination_dir full_backup dry_run s0 = Inr (latest, s7)"
  obtains s4 s6 where
    "path_isdir s0 source_dir" and "path_isdir s0 destination_dir"
    and "os_makedirs (announce source_dir full_backup dry_run s0)
           (path_join destination_dir (strftime now)) = Inr s4"
    and "resolve_baseline destination_dir full_backup
           (log_append (''Created new backup directory: '' @
                        quoted (path_join destination_dir (strftime now))) s4) = (latest, s6)"
    and "s7 = s6\<lparr>files_to_copy := 0, files_skipped := 0, total_files := 0\<rparr>"
  using assms
  by (auto simp: prepare_run_def Let_def split: if_splits sum.splits prod.splits)

lemma prepare_run_only_new_dirs:
  assumes "prepare_run now source_dir destination_dir full_backup dry_run s0 = Inr (latest, s7)"
  shows "only_new_dirs (fs s0) (fs s7)"
proof -
  from prepare_run_Inr [OF assms] obtain s4 s6 where
    mk: "os_makedirs (announce source_dir full_backup dry_run s0)
           (path_join destination_dir (strftime now)) = Inr s4"
    and rb: "resolve_baseline destination_dir full_backup
           (log_append (''Created new backup directory: '' @
                        quoted (path_join destination_dir (strftime now))) s4) = (latest, s6)"
    and s7: "s7 = s6\<lparr>files_to_copy := 0, files_skipped := 0, total_files := 0\<rparr>"
    by blast
  from os_makedirs_only_new_dirs [OF mk] resolve_baseline_fs [OF rb] s7
  show ?thesis
    by (simp add: announce_frame log_append_def)
qed

lemma write_log_lookup:
  assumes "p \<noteq> components log_file_path"
  shows "lookup (fs (print_summary dry_run
                  (write_log log_file_path ts src dst full_backup dry_run s))) p = lookup (fs s) p"
proof (cases "open_write s log_file_path (log_text ts src dst full_backup dry_run (log_messages s))")
  case (Inl e)
  then show ?thesis
    by (simp add: write_log_def print_summary_def print_out_def print_err_def)
next
  case (Inr s1)
  from open_write_frame [OF Inr] Inr assms show ?thesis
    by (simp add: write_log_def print_summary_def print_out_def print_err_def lookup_def)
qed

subsection \<open>The log file\<close>

lemma str_int_digits: "c \<in> set (str_int n) \<Longrightarrow> \<exists>k<10. c = digit_char k"
proof (induction n rule: str_int.induct)
  case (1 n)
  show ?case
  proof (cases "n < 10")
    case True
    with "1.prems" show ?thesis
      by (subst (asm) str_int.simps) auto
  next
    case False
    with "1.prems" have "c \<in> set (str_int (n div 10)) \<or> c = digit_char (n mod 10)"
      by (subst (asm) str_int.simps) auto
    then show ?thesis
    proof
      assume "c \<in> set (str_int (n div 10))"
      with "1.IH" False show ?thesis by simp
    next
      assume "c = digit_char (n mod 10)"
      moreover have "n mod 10 < 10" by simp
      ultimately show ?thesis by blast
    qed
  qed
qed

lemma digit_char_is_digit: "k < 10 \<Longrightarrow> is_digit (digit_char k)"
proof -
  assume "k < 10"
  then have "k \<in> {0, 1, 2, 3, 4, 5, 6, 7, 8, 9}" by auto
  then show ?thesis
    by (auto simp: is_digit_def in_range_def digit_char_def less_eq_char_def)
qed

lemma zfill_str_int_digits: "c \<in> set (zfill w (str_int n)) \<Longrightarrow> is_digit c"
proof -
  assume "c \<in> set (zfill w (str_int n))"
  then have "c = CHR ''0'' \<or> c \<in> set (str_int n)"
    by (auto simp: zfill_def)
  then show ?thesis
  proof
    assume "c = CHR ''0''"
    then show ?thesis by (simp add: is_digit_def in_range_def less_eq_char_def)
  next
    assume "c \<in> set (str_int n)"
    with str_int_digits digit_char_is_digit show ?thesis by blast
  qed
qed

lemma is_digit_not_special:
  "is_digit c \<Longrightarrow> c \<noteq> nl \<and> c \<noteq> sep \<and> c \<noteq> CHR ''-'' \<and> c \<noteq> CHR ''_'' \<and> c \<noteq> CHR ''.'' \<and> c \<noteq> CHR '' ''"
  by (auto simp: is_digit_def in_range_def less_eq_char_def nl_def sep_def)

lemma strftime_chars:
  "c \<in> set (strftime now) \<Longrightarrow> is_digit c \<or> c = CHR ''-'' \<or> c = CHR ''_''"
  by (auto simp: strftime_def dest: zfill_str_int_digits)

lemma strftime_no_newline: "nl \<notin> set (strftime now)"
  using strftime_chars [of nl now] is_digit_not_special [of nl]
  by (auto simp: nl_def)

lemma line_inject:
  assumes "nl \<notin> set a" and "nl \<notin> set b" and "a @ nl # r = b @ nl # r'"
  shows "a = b \<and> r = r'"
proof -
  have "takeWhile (\<lambda>c. c \<noteq> nl) (a @ nl # r) = a"
    using assms(1) by (subst takeWhile_append2) auto
  moreover have "takeWhile (\<lambda>c. c \<noteq> nl) (b @ nl # r') = b"
    using assms(2) by (subst takeWhile_append2) auto
  ultimately have "a = b" using assms(3) by simp
  with assms(3) show ?thesis by simp
qed

lemma log_text_inject:
  assumes nn: "nl \<notin> set ts" "nl \<notin> set ts'" "nl \<notin> set src" "nl \<notin> set src'"
              "nl \<notin> set dst" "nl \<notin> set dst'"
    and eq: "log_text ts src dst full dry msgs = log_text ts' src' dst' full' dry' msgs'"
  shows "ts = ts' \<and> src = src' \<and> dst = dst' \<and> full = full' \<and> dry = dry'"
proof -
  let ?ty = "\<lambda>f. if f then ''Full'' else ''Incremental''"
  let ?dr = "\<lambda>d. if d then ''Yes'' else ''No''"
  define r5 where "r5 = nl # ''--- Actions ---'' @ [nl] @ concat (map (\<lambda>m. m @ [nl]) msgs)"
  define r5' where "r5' = nl # ''--- Actions ---'' @ [nl] @ concat (map (\<lambda>m. m @ [nl]) msgs')"
  define r4 where "r4 = ''Dry Run: '' @ ?dr dry @ nl # r5"
  define r4' where "r4' = ''Dry Run: '' @ ?dr dry' @ nl # r5'"
  define r3 where "r3 = ''Backup Type: '' @ ?ty full @ nl # r4"
  define r3' where "r3' = ''Backup Type: '' @ ?ty full' @ nl # r4'"
  define r2 where "r2 = ''Destination: '' @ dst @ nl # r3"
  define r2' where "r2' = ''Destination: '' @ dst' @ nl # r3'"
  define r1 where "r1 = ''Source: '' @ src @ nl # r2"
  define r1' where "r1' = ''Source: '' @ src' @ nl # r2'"
  have e0: "ts @ nl # r1 = ts' @ nl # r1'"
    using eq unfolding log_text_def log_header_def r1_def r2_def r3_def r4_def r5_def
      r1'_def r2'_def r3'_def r4'_def r5'_def
    by simp
  from line_inject [OF nn(1,2) e0] have ts: "ts = ts'" and e1: "r1 = r1'" by simp_all
  from e1 have "src @ nl # r2 = src' @ nl # r2'"
    unfolding r1_def r1'_def by simp
  from line_inject [OF nn(3,4) this] have src: "src = src'" and e2: "r2 = r2'" by simp_all
  from e2 have "dst @ nl # r3 = dst' @ nl # r3'"
    unfolding r2_def r2'_def by simp
  from line_inject [OF nn(5,6) this] have dst: "dst = dst'" and e3: "r3 = r3'" by simp_all
  have tyn: "nl \<notin> set (?ty full)" "nl \<notin> set (?ty full')"
    by (simp_all add: nl_def)
  from e3 have "?ty full @ nl # r4 = ?ty full' @ nl # r4'"
    unfolding r3_def r3'_def by simp
  from line_inject [OF tyn this] have ty: "?ty full = ?ty full'" and e4: "r4 = r4'" by simp_all
  have drn: "nl \<notin> set (?dr dry)" "nl \<notin> set (?dr dry')"
    by (simp_all add: nl_def)
  from e4 have "?dr dry @ nl # r5 = ?dr dry' @ nl # r5'"
    unfolding r4_def r4'_def by simp
  from line_inject [OF drn this] have dr: "?dr dry = ?dr dry'" by simp
  from ty have "full = full'" by (simp split: if_splits)
  moreover from dr have "dry = dry'" by (simp split: if_splits)
  ultimately show ?thesis using ts src dst by simp
qed

lemma run_completed:
  assumes "fst (run_backup now source_dir destination_dir full_backup dry_run s0) = Completed"
  shows "\<exists>latest s7 s8.
           prepare_run now source_dir destination_dir full_backup dry_run s0 = Inr (latest, s7) \<and>
           process_files source_dir (path_join destination_dir (strftime now)) full_backup dry_run
             latest (walk_files s7 source_dir) s7 = (None, s8)"
  using assms
  by (auto simp: run_backup_def Let_def split: sum.splits prod.splits option.splits)

text \<open>
  C10, as amended: a run that gets through its loop ends after the summary whether or
  not the log file can be written, with the counters and the files as the loop left
  them. When the file is written it holds the header (timestamp, source,
  destination, backup type, dry-run flag), the line \<open>--- Actions ---\<close> and the
  accumulated messages in the order they were appended, each followed by a line
  break; when it cannot be written, the file system stays as the loop left it and one
  diagnostic goes to standard error. The text of the log determines the five values
  of the header, provided the source and the destination path contain no line break.
\<close>

theorem log_file_format:
  "(prepare_run now source_dir destination_dir full_backup dry_run s0 = Inr (latest, s7) \<and>
    process_files source_dir (path_join destination_dir (strftime now)) full_backup dry_run latest
      (walk_files s7 source_dir) s7 = (None, s8) \<longrightarrow>
      (case run_backup now source_dir destination_dir full_backup dry_run s0 of
         (result, s') \<Rightarrow>
           result = Completed \<and>
           log_messages s' = log_messages s8 \<and>
           total_files s' = total_files s8 \<and>
           files_to_copy s' = files_to_copy s8 \<and>
           files_skipped s' = files_skipped s8 \<and>
           (case open_write s8
                   (path_join (path_join destination_dir (strftime now)) ''backup_log.txt'')
                   (log_text (strftime now) source_dir destination_dir full_backup dry_run
                      (log_messages s8)) of
              Inr s9 \<Rightarrow>
                fs s' =
                  (components (path_join (path_join destination_dir (strftime now)) ''backup_log.txt''),
                   File (log_header (strftime now) source_dir destination_dir full_backup dry_run @
                         ''--- Actions ---'' @ [nl] @
                         concat (map (\<lambda>message. message @ [nl]) (log_messages s8)))) # fs s8 \<and>
                err s' = err s8
            | Inl e \<Rightarrow>
                fs s' = fs s8 \<and>
                err s' = err s8 @ [nl # ''Error: Could not write backup log file: '' @ str_exn e]))) \<and>
   (nl \<notin> set source_dir \<and> nl \<notin> set destination_dir \<and> nl \<notin> set source_dir' \<and>
    nl \<notin> set destination_dir' \<and>
    log_text (strftime now) source_dir destination_dir full_backup dry_run messages =
    log_text (strftime now') source_dir' destination_dir' full_backup' dry_run' messages' \<longrightarrow>
      strftime now = strftime now' \<and> source_dir = source_dir' \<and>
      destination_dir = destination_dir' \<and> full_backup = full_backup' \<and> dry_run = dry_run')"
proof (intro conjI impI)
  assume h: "prepare_run now source_dir destination_dir full_backup dry_run s0 = Inr (latest, s7) \<and>
    process_files source_dir (path_join destination_dir (strftime now)) full_backup dry_run latest
      (walk_files s7 source_dir) s7 = (None, s8)"
  let ?lfp = "path_join (path_join destination_dir (strftime now)) ''backup_log.txt''"
  let ?text = "log_text (strftime now) source_dir destination_dir full_backup dry_run (log_messages s8)"
  have run: "run_backup now source_dir destination_dir full_backup dry_run s0 =
      (Completed, print_summary dry_run
         (write_log ?lfp (strftime now) source_dir destination_dir full_backup dry_run s8))"
    using h by (simp add: run_backup_def Let_def)
  show "case run_backup now source_dir destination_dir full_backup dry_run s0 of
         (result, s') \<Rightarrow>
           result = Completed \<and>
           log_messages s' = log_messages s8 \<and>
           total_files s' = total_files s8 \<and>
           files_to_copy s' = files_to_copy s8 \<and>
           files_skipped s' = files_skipped s8 \<and>
           (case open_write s8 ?lfp ?text of
              Inr s9 \<Rightarrow>
                fs s' =
                  (components ?lfp,
                   File (log_header (strftime now) source_dir destination_dir full_backup dry_run @
                         ''--- Actions ---'' @ [nl] @
                         concat (map (\<lambda>message. message @ [nl]) (log_messages s8)))) # fs s8 \<and>
                err s' = err s8
            | Inl e \<Rightarrow>
                fs s' = fs s8 \<and>
                err s' = err s8 @ [nl # ''Error: Could not write backup log file: '' @ str_exn e])"
  proof (cases "open_write s8 ?lfp ?text")
    case (Inl e)
    then show ?thesis
      unfolding run by (simp add: write_log_def print_summary_def print_out_def print_err_def)
  next
    case (Inr s9)
    from open_write_frame [OF Inr] Inr show ?thesis
      unfolding run
      by (simp add: write_log_def print_summary_def print_out_def print_err_def log_text_def)
  qed
next
  assume h: "nl \<notin> set source_dir \<and> nl \<notin> set destination_dir \<and> nl \<notin> set source_dir' \<and>
    nl \<notin> set destination_dir' \<and>
    log_text (strftime now) source_dir destination_dir full_backup dry_run messages =
    log_text (strftime now') source_dir' destination_dir' full_backup' dry_run' messages'"
  from h have nn: "nl \<notin> set source_dir" "nl \<notin> set source_dir'"
      "nl \<notin> set destination_dir" "nl \<notin> set destination_dir'"
    and eq: "log_text (strftime now) source_dir destination_dir full_backup dry_run messages =
             log_text (strftime now') source_dir' destination_dir' full_backup' dry_run' messages'"
    by simp_all
  from log_text_inject [OF strftime_no_newline strftime_no_newline nn eq]
  show "strftime now = strftime now'" and "source_dir = source_dir'"
    and "destination_dir = destination_dir'" and "full_backup = full_backup'"
    and "dry_run = dry_run'"
    by simp_all
qed

lemma log_written_example:
  "(case run_backup noon ''src'' ''dst'' False False (initial_state small_tree no_faults) of
      (result, s) \<Rightarrow>
        result = Completed \<and>
        lookup (fs s) [''dst'', ''2024-03-01_12-00-00'', ''backup_log.txt''] =
          Some (File (log_text ''2024-03-01_12-00-00'' ''src'' ''dst'' False False
            [''Created new backup directory: '' @ quoted ''dst/2024-03-01_12-00-00'',
             ''Performing incremental backup against: '' @ quoted ''dst/2024-03-01_12-00-00'',
             ''Copied: '' @ quoted ''a.txt'',
             ''Copied: '' @ quoted ''sub/b.txt''])))"
  by code_simp

lemma log_denied_example:
  "(case run_backup noon ''src'' ''dst'' False False (initial_state small_tree log_denied) of
      (result, s) \<Rightarrow>
        result = Completed \<and> files_to_copy s = 2 \<and> files_skipped s = 0 \<and>
        lookup (fs s) [''dst'', ''2024-03-01_12-00-00'', ''backup_log.txt''] = None \<and>
        lookup (fs s) [''dst'', ''2024-03-01_12-00-00'', ''sub'', ''b.txt''] = Some (File ''world!'') \<and>
        err s = [nl # ''Error: Could not write backup log file: Permission denied''])"
  by code_simp

theorem log_file_format_witness:
  "(\<exists>latest s7 s8.
      prepare_run noon ''src'' ''dst'' False False (initial_state small_tree log_denied) =
        Inr (latest, s7) \<and>
      process_files ''src'' (path_join ''dst'' (strftime noon)) False False latest
        (walk_files s7 ''src'') s7 = (None, s8) \<and>
      (case run_backup noon ''src'' ''dst'' False False (initial_state small_tree log_denied) of
         (result, s') \<Rightarrow>
           result = Completed \<and> files_to_copy s' = files_to_copy s8 \<and>
           files_skipped s' = files_skipped s8 \<and> log_messages s' = log_messages s8)) \<and>
   (case run_backup noon ''src'' ''dst'' False False (initial_state small_tree log_denied) of
      (result, s) \<Rightarrow>
        result = Completed \<and> files_to_copy s = 2 \<and> files_skipped s = 0 \<and>
        lookup (fs s) [''dst'', ''2024-03-01_12-00-00'', ''backup_log.txt''] = None \<and>
        lookup (fs s) [''dst'', ''2024-03-01_12-00-00'', ''sub'', ''b.txt''] = Some (File ''world!'') \<and>
        err s = [nl # ''Error: Could not write backup log file: Permission denied'']) \<and>
   nl \<notin> set ''src'' \<and> nl \<notin> set ''dst'' \<and>
   strftime noon = ''2024-03-01_12-00-00''"
proof -
  let ?s0 = "initial_state small_tree log_denied"
  have "fst (run_backup noon ''src'' ''dst'' False False ?s0) = Completed"
    using log_denied_example by (simp split: prod.splits)
  from run_completed [OF this] obtain latest s7 s8 where
    prep: "prepare_run noon ''src'' ''dst'' False False ?s0 = Inr (latest, s7)"
    and loop: "process_files ''src'' (path_join ''dst'' (strftime noon)) False False latest
                 (walk_files s7 ''src'') s7 = (None, s8)"
    by blast
  from log_file_format [of noon "''src''" "''dst''" False False ?s0 latest s7 s8
         "''src''" "''dst''" "[]" noon False False "[]"] prep loop
  have run: "case run_backup noon ''src'' ''dst'' False False ?s0 of
         (result, s') \<Rightarrow>
           result = Completed \<and> files_to_copy s' = files_to_copy s8 \<and>
           files_skipped s' = files_skipped s8 \<and> log_messages s' = log_messages s8"
    and ts: "strftime noon = strftime noon"
    by (simp_all add: nl_def split: prod.splits)
  have nn: "nl \<notin> set ''src''" "nl \<notin> set ''dst''"
    by (simp_all add: nl_def)
  have noon: "strftime noon = ''2024-03-01_12-00-00''"
    by code_simp
  have "\<exists>latest s7 s8.
      prepare_run noon ''src'' ''dst'' False False ?s0 = Inr (latest, s7) \<and>
      process_files ''src'' (path_join ''dst'' (strftime noon)) False False latest
        (walk_files s7 ''src'') s7 = (None, s8) \<and>
      (case run_backup noon ''src'' ''dst'' False False ?s0 of
         (result, s') \<Rightarrow>
           result = Completed \<and> files_to_copy s' = files_to_copy s8 \<and>
           files_skipped s' = files_skipped s8 \<and> log_messages s' = log_messages s8)"
    by (rule exI [where x = latest], rule exI [where x = s7], rule exI [where x = s8])
       (intro conjI prep loop run)
  then show ?thesis
    by (intro conjI log_denied_example nn noon)
qed

text \<open>
  Without that proviso the header does not determine them: a line break in a path
  lets two runs with different sources and destinations write the same header.
\<close>

theorem log_header_collision:
  "log_header (strftime noon) (''x'' @ [nl] @ ''Destination: y'') ''z'' False False =
   log_header (strftime noon) ''x'' (''y'' @ [nl] @ ''Destination: z'') False False \<and>
   ''x'' @ [nl] @ ''Destination: y'' \<noteq> ''x'' \<and>
   fst (run_backup noon (''x'' @ [nl] @ ''Destination: y'') ''z'' False False
          (initial_state newline_tree no_faults)) = Completed \<and>
   fst (run_backup noon ''x'' (''y'' @ [nl] @ ''Destination: z'') False False
          (initial_state newline_tree no_faults)) = Completed"
  by code_simp

subsection \<open>Path strings and their components\<close>

lemma split_on_not_Nil: "split_on c xs \<noteq> []"
  by (induction xs) (auto split: list.splits)

lemma split_on_no_sep: "c \<notin> set n \<Longrightarrow> split_on c n = [n]"
  by (induction n) auto

lemma split_on_append: "split_on c (a @ c # b) = split_on c a @ split_on c b"
proof (induction a)
  case Nil
  then show ?case by simp
next
  case (Cons x a)
  show ?case
  proof (cases "x = c")
    case True
    with Cons show ?thesis by simp
  next
    case False
    obtain w ws where w: "split_on c a = w # ws"
      using split_on_not_Nil [of c a] by (cases "split_on c a") auto
    with False Cons show ?thesis by simp
  qed
qed

lemma components_Nil: "components [] = []"
  by (simp add: components_def)

lemma components_append: "components (a @ sep # b) = components a @ components b"
  by (simp add: components_def split_on_append)

lemma components_snoc_sep: "components (a @ [sep]) = components a"
  using components_append [of a "[]"] by (simp add: components_Nil)

lemma components_valid_name: "valid_name n \<Longrightarrow> components n = [n]"
  by (simp add: components_def valid_name_def split_on_no_sep)

lemma split_on_parts: "w \<in> set (split_on c xs) \<Longrightarrow> c \<notin> set w"
proof (induction xs arbitrary: w)
  case Nil
  then show ?case by simp
next
  case (Cons x xs)
  show ?case
  proof (cases "x = c")
    case True
    with Cons show ?thesis by auto
  next
    case False
    obtain v vs where v: "split_on c xs = v # vs"
      using split_on_not_Nil [of c xs] by (cases "split_on c xs") auto
    with False Cons.prems have "w = x # v \<or> w \<in> set vs" by simp
    then show ?thesis
    proof
      assume "w = x # v"
      moreover have "c \<notin> set v" using Cons.IH [of v] v by simp
      ultimately show ?thesis using False by simp
    next
      assume "w \<in> set vs"
      then show ?thesis using Cons.IH [of w] v by simp
    qed
  qed
qed

lemma components_valid: "n \<in> set (components p) \<Longrightarrow> valid_name n"
  by (auto simp: components_def valid_name_def dest: split_on_parts)

lemma valid_name_relative: "valid_name n \<Longrightarrow> relative n"
  by (cases n) (auto simp: valid_name_def relative_def)

lemma path_join_cases:
  assumes "relative b"
  shows "path_join a b = b \<and> a = [] \<or>
         (\<exists>a'. a = a' @ [sep] \<and> path_join a b = a' @ sep # b) \<or>
         (a \<noteq> [] \<and> last a \<noteq> sep \<and> path_join a b = a @ sep # b)"
proof (cases "a = []")
  case True
  with assms show ?thesis by (simp add: path_join_def relative_def)
next
  case False
  show ?thesis
  proof (cases "last a = sep")
    case True
    with False have "a = butlast a @ [sep]" by (metis append_butlast_last_id)
    moreover from True False assms have "path_join a b = a @ b"
      by (simp add: path_join_def relative_def)
    ultimately show ?thesis by (metis append.assoc append_Cons append_Nil)
  next
    case l: False
    with False assms show ?thesis by (simp add: path_join_def relative_def)
  qed
qed

lemma components_join:
  assumes "relative b"
  shows "components (path_join a b) = components a @ components b"
  using path_join_cases [OF assms, of a]
  by (auto simp: components_append components_Nil components_snoc_sep)

lemma components_join_name:
  "valid_name n \<Longrightarrow> components (path_join a n) = components a @ [n]"
  by (simp add: components_join valid_name_relative components_valid_name)

lemma path_join_relative:
  assumes "relative a" and "relative b"
  shows "relative (path_join a b)"
  using path_join_cases [OF assms(2), of a] assms(1)
  by (auto simp: relative_def hd_append split: if_splits)

lemma path_join_assoc:
  assumes "relative b" and "relative c"
  shows "path_join a (path_join b c) = path_join (path_join a b) c"
proof -
  from assms have bc: "relative (path_join b c)" by (rule path_join_relative)
  from assms(1) have b: "b \<noteq> []" by (simp add: relative_def)
  have last_ab: "path_join a b \<noteq> [] \<and> last (path_join a b) = last b"
    using path_join_cases [OF assms(1), of a] b by auto
  have "path_join b c = (if last b = sep then b @ c else b @ sep # c)"
    using assms b by (simp add: path_join_def relative_def)
  moreover have "path_join (path_join a b) c =
      (if last b = sep then path_join a b @ c else path_join a b @ sep # c)"
    using assms(2) last_ab by (simp add: path_join_def relative_def)
  moreover have "path_join a (b @ x) = path_join a b @ x" for x
    using b assms(1) by (auto simp: path_join_def relative_def)
  ultimately show ?thesis by simp
qed

lemma foldl_join_relative:
  "relative a \<Longrightarrow> list_all valid_name xs \<Longrightarrow> relative (foldl path_join a xs)"
  by (induction xs arbitrary: a) (auto simp: path_join_relative valid_name_relative)

lemma components_foldl_join:
  "list_all valid_name xs \<Longrightarrow> components (foldl path_join a xs) = components a @ xs"
  by (induction xs arbitrary: a) (auto simp: components_join_name)

lemma path_join_foldl:
  "relative x \<Longrightarrow> list_all valid_name xs \<Longrightarrow>
   path_join a (foldl path_join x xs) = foldl path_join (path_join a x) xs"
proof (induction xs arbitrary: x)
  case Nil
  then show ?case by simp
next
  case (Cons y ys)
  from Cons.prems have y: "relative y" and ys: "list_all valid_name ys"
    by (simp_all add: valid_name_relative)
  from Cons.prems(1) y have "relative (path_join x y)" by (rule path_join_relative)
  from Cons.IH [OF this ys] path_join_assoc [OF Cons.prems(1) y, of a]
  show ?case by simp
qed

text \<open>relpath of a path below start\<close>

lemma commonprefix_append: "commonprefix xs (xs @ ys) = xs"
  by (induction xs) auto

lemma path_relpath_below:
  assumes "components path = components start @ x # xs"
  shows "path_relpath path start = foldl path_join x xs"
  using assms by (simp add: path_relpath_def Let_def commonprefix_append)

text \<open>dirname\<close>

lemma components_rstrip: "components (rev (dropWhile (\<lambda>c. c = sep) (rev h))) = components h"
proof (induction h rule: rev_induct)
  case Nil
  then show ?case by simp
next
  case (snoc c h)
  then show ?case
    by (cases "c = sep") (simp_all add: components_snoc_sep)
qed

lemma dropWhile_no_sep: "sep \<notin> set n \<Longrightarrow> dropWhile (\<lambda>c. c \<noteq> sep) (rev n) = []"
  by (auto simp: dropWhile_eq_Nil_conv)

lemma components_dirname_prefix: "prefix (components (path_dirname p)) (components p)"
proof (cases "sep \<in> set p")
  case False
  show ?thesis
    unfolding path_dirname_def Let_def dropWhile_no_sep [OF False]
    by (simp add: components_Nil)
next
  case True
  then have "sep \<in> set (rev p)" by simp
  then obtain n' q' where r: "rev p = n' @ sep # q'" and n': "sep \<notin> set n'"
    by (meson split_list_first)
  define q where "q = rev q'"
  define n where "n = rev n'"
  from r have p: "p = q @ sep # n"
    by (metis q_def n_def rev_append rev.simps(2) rev_rev_ident append.assoc append_Cons append_Nil)
  have "dropWhile (\<lambda>c. c \<noteq> sep) (n' @ sep # q') = sep # q'"
    using n' by (subst dropWhile_append3) auto
  with r have "dropWhile (\<lambda>c. c \<noteq> sep) (rev p) = sep # q'"
    by simp
  then have head: "rev (dropWhile (\<lambda>c. c \<noteq> sep) (rev p)) = q @ [sep]"
    by (simp add: q_def)
  have "components (path_dirname p) = components q"
    unfolding path_dirname_def Let_def head
    using components_rstrip [of "q @ [sep]"] by (simp add: components_snoc_sep)
  with p show ?thesis
    by (simp add: components_append)
qed

lemma components_dirname_join:
  assumes "valid_name n"
  shows "components (path_dirname (path_join a n)) = components a"
proof -
  from assms have n: "sep \<notin> set n" by (simp add: valid_name_def)
  have dn: "components (path_dirname (q @ sep # n)) = components q" for q
  proof -
    have "dropWhile (\<lambda>c. c \<noteq> sep) (rev n @ sep # rev q) = sep # rev q"
      using n by (subst dropWhile_append3) auto
    then have head: "rev (dropWhile (\<lambda>c. c \<noteq> sep) (rev (q @ sep # n))) = q @ [sep]"
      by simp
    show ?thesis
      unfolding path_dirname_def Let_def head
      using components_rstrip [of "q @ [sep]"] by (simp add: components_snoc_sep)
  qed
  have d0: "components (path_dirname n) = []"
  proof -
    show ?thesis
      unfolding path_dirname_def Let_def dropWhile_no_sep [OF n]
      by (simp add: components_Nil)
  qed
  from path_join_cases [OF valid_name_relative [OF assms], of a] show ?thesis
    by (auto simp: dn d0 components_Nil components_snoc_sep)
qed

subsection \<open>\<open>strptime\<close> reads what \<open>strftime\<close> writes\<close>

lemma digit_val_digit_char: "k < 10 \<Longrightarrow> digit_val (digit_char k) = k"
  by (simp add: digit_val_def digit_char_def)

lemma foldl_digits_str_int:
  "foldl (\<lambda>a c. 10 * a + digit_val c) 0 (str_int n) = n"
proof (induction n rule: str_int.induct)
  case (1 n)
  show ?case
  proof (cases "n < 10")
    case True
    then show ?thesis
      by (subst str_int.simps) (simp add: digit_val_digit_char)
  next
    case False
    with "1.IH" have "foldl (\<lambda>a c. 10 * a + digit_val c) 0 (str_int (n div 10)) = n div 10"
      by simp
    with False show ?thesis
      by (subst str_int.simps) (simp add: digit_val_digit_char)
  qed
qed

lemma foldl_digits_zeros:
  "foldl (\<lambda>a c. 10 * a + digit_val c) 0 (replicate k (CHR ''0'') @ xs) =
   foldl (\<lambda>a c. 10 * a + digit_val c) 0 xs"
  by (induction k) (simp_all add: digit_val_def)

lemma py_int_zfill: "py_int (zfill w (str_int n)) = n"
proof -
  have "filter (\<lambda>c. c \<noteq> CHR '' '') (zfill w (str_int n)) = zfill w (str_int n)"
    using zfill_str_int_digits [of _ w n] is_digit_not_special
    by (auto simp: filter_id_conv)
  then have "py_int (zfill w (str_int n)) =
      foldl (\<lambda>a c. 10 * a + digit_val c) 0 (zfill w (str_int n))"
    by (simp add: py_int_def)
  also have "\<dots> = foldl (\<lambda>a c. 10 * a + digit_val c) 0 (str_int n)"
    unfolding zfill_def by (rule foldl_digits_zeros)
  finally show ?thesis by (simp add: foldl_digits_str_int)
qed

lemma str_int_length: "n < 10 ^ k \<Longrightarrow> 0 < k \<Longrightarrow> length (str_int n) \<le> k"
proof (induction k arbitrary: n)
  case 0
  then show ?case by simp
next
  case (Suc k)
  show ?case
  proof (cases "n < 10")
    case True
    then show ?thesis by (subst str_int.simps) simp
  next
    case False
    with Suc.prems have k: "0 < k" by (cases k) auto
    from Suc.prems have "n div 10 < 10 ^ k" by (simp add: less_mult_imp_div_less mult.commute)
    from Suc.IH [OF this k] False show ?thesis
      by (subst str_int.simps) simp
  qed
qed

lemma str_int_not_Nil: "str_int n \<noteq> []"
  by (subst str_int.simps) simp

lemma zfill_length: "length s \<le> w \<Longrightarrow> length (zfill w s) = w"
  by (simp add: zfill_def)

lemma year_field:
  assumes "y \<le> 9999"
  shows "length (zfill 4 (str_int y)) = 4" and "re_Y (zfill 4 (str_int y))"
proof -
  from assms have "y < 10 ^ 4" by simp
  from str_int_length [OF this] show l: "length (zfill 4 (str_int y)) = 4"
    by (simp add: zfill_length)
  with zfill_str_int_digits [of _ 4 y] show "re_Y (zfill 4 (str_int y))"
    by (auto simp: re_Y_def list_all_iff)
qed

text \<open>The two-digit fields, by enumeration.\<close>

lemma month_fields: "list_all (\<lambda>m. re_m (zfill 2 (str_int m))) [1..<13]"
  by code_simp

lemma day_fields: "list_all (\<lambda>d. re_d (zfill 2 (str_int d))) [1..<32]"
  by code_simp

lemma hour_fields: "list_all (\<lambda>h. re_H (zfill 2 (str_int h))) [0..<24]"
  by code_simp

lemma minute_fields: "list_all (\<lambda>m. re_M (zfill 2 (str_int m)) \<and> re_S (zfill 2 (str_int m))) [0..<60]"
  by code_simp

lemma month_field: "1 \<le> m \<Longrightarrow> m \<le> 12 \<Longrightarrow> re_m (zfill 2 (str_int m))"
  using month_fields by (simp add: list_all_iff)

lemma day_field: "1 \<le> d \<Longrightarrow> d \<le> 31 \<Longrightarrow> re_d (zfill 2 (str_int d))"
  using day_fields by (simp add: list_all_iff)

lemma hour_field: "h \<le> 23 \<Longrightarrow> re_H (zfill 2 (str_int h))"
  using hour_fields by (simp add: list_all_iff)

lemma minute_field: "m \<le> 59 \<Longrightarrow> re_M (zfill 2 (str_int m)) \<and> re_S (zfill 2 (str_int m))"
  using minute_fields by (simp add: list_all_iff)

lemma days_in_month_le: "days_in_month y m \<le> 31"
  by (simp add: days_in_month_def)

text \<open>Splitting the text at the separators.\<close>

lemma digits_until:
  assumes "list_all is_digit f" and "c = CHR ''-'' \<or> c = CHR ''_''"
  shows "takeWhile (\<lambda>x. x \<noteq> c) (f @ c # r) = f"
    and "dropWhile (\<lambda>x. x \<noteq> c) (f @ c # r) = c # r"
proof -
  from assms have n: "\<forall>x \<in> set f. x \<noteq> c"
    using is_digit_not_special by (auto simp: list_all_iff)
  then show "takeWhile (\<lambda>x. x \<noteq> c) (f @ c # r) = f"
    by (subst takeWhile_append2) auto
  from n show "dropWhile (\<lambda>x. x \<noteq> c) (f @ c # r) = c # r"
    by (subst dropWhile_append3) auto
qed

lemma zfill_digits: "list_all is_digit (zfill w (str_int n))"
  using zfill_str_int_digits [of _ w n] by (auto simp: list_all_iff)

lemma strptime_strftime:
  assumes "valid_datetime now"
  shows "strptime (strftime now) = Some now"
proof -
  let ?Y = "zfill 4 (str_int (year now))"
  let ?m = "zfill 2 (str_int (month now))"
  let ?d = "zfill 2 (str_int (day now))"
  let ?H = "zfill 2 (str_int (hour now))"
  let ?M = "zfill 2 (str_int (minute now))"
  let ?S = "zfill 2 (str_int (second now))"
  from assms have r: "1 \<le> year now" "year now \<le> 9999" "1 \<le> month now" "month now \<le> 12"
    "1 \<le> day now" "day now \<le> days_in_month (year now) (month now)"
    "hour now \<le> 23" "minute now \<le> 59" "second now \<le> 59"
    by (simp_all add: valid_datetime_def valid_date_def)
  from r(6) days_in_month_le [of "year now" "month now"] have d31: "day now \<le> 31" by simp
  note y = year_field [OF r(2)]
  have s: "strftime now = ?Y @ CHR ''-'' # ?m @ CHR ''-'' # ?d @ CHR ''_'' # ?H @ CHR ''-'' # ?M @
             CHR ''-'' # ?S"
    by (simp add: strftime_def)
  have t4: "take 4 (strftime now) = ?Y" and d4: "drop 4 (strftime now) =
      CHR ''-'' # ?m @ CHR ''-'' # ?d @ CHR ''_'' # ?H @ CHR ''-'' # ?M @ CHR ''-'' # ?S"
    using y(1) by (simp_all add: s)
  have dt: "\<lparr>year = py_int ?Y, month = py_int ?m, day = py_int ?d, hour = py_int ?H,
             minute = py_int ?M, second = py_int ?S\<rparr> = now"
    by (simp add: py_int_zfill)
  have fields: "re_Y ?Y" "re_m ?m" "re_d ?d" "re_H ?H" "re_M ?M" "re_S ?S"
    using y(2) month_field [OF r(3,4)] day_field [OF r(5) d31] hour_field [OF r(7)]
      minute_field [OF r(8)] minute_field [OF r(9)]
    by simp_all
  have vd: "valid_date now" "second now \<le> 59"
    using assms by (simp_all add: valid_datetime_def)
  have eta: "\<lparr>year = year now, month = month now, day = day now, hour = hour now,
              minute = minute now, second = second now\<rparr> = now"
    by simp
  show ?thesis
    unfolding strptime_def t4 d4
    by (simp add: expect_def digits_until [OF zfill_digits] Let_def py_int_zfill fields vd eta)
qed

lemma strftime_valid_name: "valid_name (strftime now)"
proof -
  have "CHR ''-'' \<in> set (strftime now)" by (simp add: strftime_def)
  then have "strftime now \<noteq> []" by auto
  moreover have "sep \<notin> set (strftime now)"
    using strftime_chars [of sep now] is_digit_not_special [of sep]
    by (auto simp: sep_def)
  moreover have "CHR ''.'' \<notin> set (strftime now)"
    using strftime_chars [of "CHR ''.''" now] is_digit_not_special [of "CHR ''.''"]
    by auto
  then have "strftime now \<noteq> ''.''" by auto
  ultimately show ?thesis by (simp add: valid_name_def)
qed

subsection \<open>The files of a walk\<close>

lemma distinct_concat_map:
  assumes "distinct ns"
    and "\<And>n. n \<in> set ns \<Longrightarrow> distinct (g n)"
    and "\<And>n m. n \<in> set ns \<Longrightarrow> m \<in> set ns \<Longrightarrow> n \<noteq> m \<Longrightarrow> set (g n) \<inter> set (g m) = {}"
  shows "distinct (concat (map g ns))"
  using assms
proof (induction ns)
  case Nil
  then show ?case by simp
next
  case (Cons n ns)
  have "distinct (concat (map g ns))"
    using Cons.prems by (intro Cons.IH) auto
  moreover have "distinct (g n)" using Cons.prems(2) by simp
  moreover have "set (g n) \<inter> set (g m) = {}" if "m \<in> set ns" for m
    using Cons.prems(1) Cons.prems(3) [of n m] that by auto
  ultimately show ?case by auto
qed

lemma child_names_valid:
  assumes "valid_names t" and "n \<in> set (child_names t d)"
  shows "valid_name n"
proof -
  from assms(2) obtain p x where px: "(p, x) \<in> set t" "p \<noteq> []" "n = last p"
    by (auto simp: child_names_def)
  with assms(1) have "list_all valid_name p"
    by (auto simp: valid_names_def list_all_iff)
  with px show ?thesis by (simp add: list_all_iff)
qed

lemma child_names_distinct: "distinct (child_names t d)"
  by (simp add: child_names_def)

lemma scandir_Inr:
  assumes "scandir s d = Inr names"
  shows "names = child_names (fs s) d" and "lookup (fs s) d = Some Dir"
  using assms by (auto simp: scandir_def split: option.splits node.splits)

lemma walked_paths_Cons:
  "walked_paths ((root, dirs, files) # w) =
     map (\<lambda>filename. components (path_join root filename)) files @ walked_paths w"
  by (simp add: walked_paths_def)

lemma walked_paths_concat:
  "walked_paths (concat ws) = concat (map walked_paths ws)"
  by (induction ws) (simp_all add: walked_paths_def)

lemma walked_paths_walk_from:
  assumes "scandir s d = Inr names"
  shows "walked_paths (walk_from s top_dir d) =
           map (\<lambda>f. components (path_join top_dir f)) (filter (\<lambda>n. \<not> is_subdir s d n) names) @
           concat (map (\<lambda>n. walked_paths (walk_from s (path_join top_dir n) (d @ [n])))
                       (filter (is_subdir s d) names))"
  by (subst walk_from.simps)
     (simp add: assms walked_paths_Cons walked_paths_concat comp_def)

lemma walk_from_files:
  "valid_names (fs s) \<Longrightarrow> components top_dir = d \<Longrightarrow>
         distinct (walked_paths (walk_from s top_dir d)) \<and>
         (\<forall>c \<in> set (walked_paths (walk_from s top_dir d)). file_below s d c)"
proof (induction s top_dir d rule: walk_from.induct)
  case (1 s top_dir d)
  show ?case
  proof (cases "scandir s d")
    case (Inl e)
    then show ?thesis
      by (subst walk_from.simps, subst (2) walk_from.simps) (simp add: walked_paths_def)
  next
    case (Inr names)
    note sc = scandir_Inr [OF Inr]
    let ?files = "filter (\<lambda>n. \<not> is_subdir s d n) names"
    let ?dirs = "filter (is_subdir s d) names"
    let ?F = "map (\<lambda>f. components (path_join top_dir f)) ?files"
    let ?g = "\<lambda>n. walked_paths (walk_from s (path_join top_dir n) (d @ [n]))"
    have valid: "valid_name n" if "n \<in> set names" for n
      using child_names_valid [OF "1.prems"(1), of n d] that sc(1) by simp
    have dist: "distinct names"
      using sc(1) child_names_distinct by simp
    have comp: "components (path_join top_dir n) = d @ [n]" if "n \<in> set names" for n
      using components_join_name [OF valid [OF that], of top_dir] "1.prems"(2) by simp
    have wp: "walked_paths (walk_from s top_dir d) = ?F @ concat (map ?g ?dirs)"
      by (rule walked_paths_walk_from [OF Inr])
    have F: "?F = map (\<lambda>f. d @ [f]) ?files"
      using comp by (simp cong: map_cong)
    have ih: "distinct (?g n) \<and> (\<forall>c \<in> set (?g n). file_below s (d @ [n]) c)"
      if "n \<in> set ?dirs" for n
      using "1.IH" [OF Inr that "1.prems"(1)] comp [of n] that by simp
    have sub: "file_below s d c" if "n \<in> set ?dirs" and "file_below s (d @ [n]) c" for n c
    proof -
      from that(2) obtain r where r: "c = (d @ [n]) @ r" "r \<noteq> []" "list_all valid_name r"
        "lookup (fs s) c \<noteq> Some Dir"
        "\<forall>k<length r. lookup (fs s) ((d @ [n]) @ take k r) = Some Dir"
        by (auto simp: file_below_def)
      have "lookup (fs s) (d @ take k (n # r)) = Some Dir" if "k < length (n # r)" for k
      proof (cases k)
        case 0
        with sc(2) show ?thesis by simp
      next
        case (Suc j)
        with that r(5) show ?thesis by simp
      qed
      with r valid [of n] that(1) show ?thesis
        unfolding file_below_def
        by (intro exI [of _ "n # r"]) simp
    qed
    have leaf: "file_below s d (d @ [f])" if "f \<in> set ?files" for f
      unfolding file_below_def
      using that valid [of f] sc(2)
      by (intro exI [of _ "[f]"]) (simp add: is_subdir_def)
    have starts: "\<exists>r. c = d @ n # r \<and> r \<noteq> []" if "n \<in> set ?dirs" and "c \<in> set (?g n)" for n c
      using ih [OF that(1)] that(2) by (auto simp: file_below_def)
    have d1: "distinct ?F"
      unfolding F using dist by (simp add: distinct_map inj_on_def)
    have d2: "distinct (concat (map ?g ?dirs))"
    proof (rule distinct_concat_map)
      show "distinct ?dirs" using dist by simp
      show "distinct (?g n)" if "n \<in> set ?dirs" for n using ih [OF that] by simp
      show "set (?g n) \<inter> set (?g m) = {}"
        if "n \<in> set ?dirs" "m \<in> set ?dirs" "n \<noteq> m" for n m
        using starts [OF that(1)] starts [OF that(2)] that(3) by fastforce
    qed
    have d3: "set ?F \<inter> set (concat (map ?g ?dirs)) = {}"
      unfolding F using starts by fastforce
    have all: "file_below s d c" if "c \<in> set (?F @ concat (map ?g ?dirs))" for c
      using that leaf sub ih unfolding F by auto
    from d1 d2 d3 all show ?thesis
      unfolding wp by auto
  qed
qed

subsection \<open>The loop when the baseline is the new snapshot directory\<close>

lemma file_below_prefix:
  assumes "file_below s d c1" and "file_below s d c2" and "prefix c2 c1"
  shows "c2 = c1"
proof (rule ccontr)
  assume ne: "c2 \<noteq> c1"
  from assms(1) obtain r1 where r1: "c1 = d @ r1"
    "\<forall>k<length r1. lookup (fs s) (d @ take k r1) = Some Dir"
    by (auto simp: file_below_def)
  from assms(2) obtain r2 where r2: "c2 = d @ r2" "lookup (fs s) c2 \<noteq> Some Dir"
    by (auto simp: file_below_def)
  from assms(3) r1(1) r2(1) have p: "prefix r2 r1" by simp
  then obtain z where z: "r1 = r2 @ z" by (auto simp: prefix_def)
  with ne r1(1) r2(1) have "z \<noteq> []" by auto
  with z have "length r2 < length r1" by simp
  moreover from z have "r2 = take (length r2) r1" by simp
  ultimately have "lookup (fs s) (d @ r2) = Some Dir"
    using r1(2) by metis
  with r2 show False by simp
qed

lemma files_prefix_free:
  assumes "distinct cs" and "\<forall>c \<in> set cs. file_below s d c"
  shows "prefix_free cs"
  using assms
proof (induction cs)
  case Nil
  then show ?case by simp
next
  case (Cons c cs)
  have "\<not> prefix c' c" if "c' \<in> set cs" for c'
    using file_below_prefix [of s d c c'] Cons.prems that by auto
  with Cons show ?case by (simp add: list_all_iff)
qed

lemma prefix_free_rebase:
  assumes "prefix_free cs" and "\<forall>c \<in> set cs. prefix a c"
  shows "prefix_free (map (\<lambda>c. b @ drop (length a) c) cs)"
  using assms
proof (induction cs)
  case Nil
  then show ?case by simp
next
  case (Cons c cs)
  have "\<not> prefix (b @ drop (length a) c') (b @ drop (length a) c)" if "c' \<in> set cs" for c'
  proof
    assume "prefix (b @ drop (length a) c') (b @ drop (length a) c)"
    then have "prefix (drop (length a) c') (drop (length a) c)" by simp
    moreover from Cons.prems(2) that obtain r r' where "c = a @ r" "c' = a @ r'"
      by (auto simp: prefix_def)
    ultimately have "prefix c' c" by simp
    with Cons.prems(1) that show False by (simp add: list_all_iff)
  qed
  with Cons show ?case by (simp add: list_all_iff)
qed

text \<open>What a copy changes.\<close>

lemma ancestors_prefix: "q \<in> set (ancestors p) \<Longrightarrow> prefix q p \<and> q \<noteq> []"
  by (auto simp: ancestors_def take_is_prefix)

lemma path_isdir_lookup: "path_isdir s p \<Longrightarrow> lookup (fs s) (components p) = Some Dir"
  by (auto simp: path_isdir_def os_stat_def split: if_splits option.splits sum.splits node.splits)

lemma path_exists_lookup: "path_exists s p \<Longrightarrow> lookup (fs s) (components p) \<noteq> None"
  by (auto simp: path_exists_def os_stat_def split: if_splits option.splits sum.splits)

lemma shutil_copy2_lookup:
  assumes "shutil_copy2 s src dst = Inr s'" and "lookup (fs s) (components dst) = None"
  shows "lookup (fs s') q = lookup (fs s) q \<or> q = components dst"
proof -
  from assms(2) have "\<not> path_isdir s dst"
    using path_isdir_lookup [of s dst] by auto
  with assms(1) obtain c where "open_write s dst c = Inr s'"
    by (auto simp: shutil_copy2_def Let_def split: option.splits if_splits node.splits)
  from open_write_frame [OF this] show ?thesis
    by (auto simp: lookup_def)
qed

lemma copy_file_lookup:
  assumes none: "lookup (fs s) (components destination_file) = None"
    and dir: "components (path_dirname destination_file) \<noteq> components destination_file"
    and copy: "copy_file dry_run source_file relative_path destination_file s = (r, s')"
  shows "lookup (fs s') q = lookup (fs s) q \<or> prefix q (components destination_file)"
proof (cases "os_makedirs s (path_dirname destination_file)")
  case (Inl e)
  with copy show ?thesis by (simp add: copy_file_def)
next
  case (Inr s1)
  note mk = os_makedirs_lookup [OF Inr]
  have pre: "prefix (components (path_dirname destination_file)) (components destination_file)"
    by (rule components_dirname_prefix)
  have q1: "lookup (fs s1) q = lookup (fs s) q \<or> prefix q (components destination_file)"
    using mk [of q] ancestors_prefix [of q "components (path_dirname destination_file)"] pre
    by (auto intro: prefix_order.trans)
  have "components destination_file \<notin> set (ancestors (components (path_dirname destination_file)))"
  proof
    assume "components destination_file \<in> set (ancestors (components (path_dirname destination_file)))"
    from ancestors_prefix [OF this] pre dir show False
      by (simp add: prefix_order.antisym)
  qed
  with mk [of "components destination_file"] none
  have none1: "lookup (fs s1) (components destination_file) = None" by simp
  show ?thesis
  proof (cases "shutil_copy2 s1 source_file destination_file")
    case c: (Inl e)
    with copy Inr have "fs s' = fs s1"
      by (auto simp: copy_file_def log_append_def print_out_def print_err_def split: if_splits)
    with q1 show ?thesis by simp
  next
    case c: (Inr s2)
    from shutil_copy2_lookup [OF c none1, of q]
    have q2: "lookup (fs s2) q = lookup (fs s1) q \<or> prefix q (components destination_file)"
      by auto
    from copy Inr c have "fs s' = fs s1 \<or> fs s' = fs s2"
      by (auto simp: copy_file_def log_append_def print_out_def print_err_def split: if_splits)
    with q1 q2 show ?thesis by auto
  qed
qed

text \<open>The loop of an incremental run whose baseline is the new snapshot directory.\<close>

lemma process_file_own_baseline:
  assumes "lookup (fs s) (dest_components source_dir backup_path (root, filename)) = None"
  shows "process_file source_dir backup_path False dry_run (Some backup_path) root filename s =
         process_file source_dir backup_path True dry_run None root filename s"
proof -
  let ?s1 = "s\<lparr>total_files := total_files s + 1\<rparr>"
  let ?rel = "path_relpath (path_join root filename) source_dir"
  have "\<not> path_exists ?s1 (path_join backup_path ?rel)"
    using path_exists_lookup [of ?s1 "path_join backup_path ?rel"] assms
    by (auto simp: dest_components_def)
  then show ?thesis
    by (simp add: process_file_def Let_def)
qed

lemma process_file_full_lookup:
  assumes none: "lookup (fs s) (dest_components source_dir backup_path (root, filename)) = None"
    and dir: "dest_dirname source_dir backup_path (root, filename) \<noteq>
              dest_components source_dir backup_path (root, filename)"
    and step: "process_file source_dir backup_path True dry_run None root filename s = (r, s')"
  shows "lookup (fs s') q = lookup (fs s) q \<or>
         prefix q (dest_components source_dir backup_path (root, filename))"
proof -
  let ?s1 = "s\<lparr>total_files := total_files s + 1\<rparr>"
  from step have "copy_file dry_run (path_join root filename)
      (path_relpath (path_join root filename) source_dir)
      (path_join backup_path (path_relpath (path_join root filename) source_dir)) ?s1 = (r, s')"
    by (simp add: process_file_def Let_def)
  from copy_file_lookup [OF _ _ this, of q] none dir show ?thesis
    by (simp add: dest_components_def dest_dirname_def)
qed

lemma process_files_own_baseline:
  assumes "prefix_free (map (dest_components source_dir backup_path) files)"
    and "\<forall>x \<in> set files. lookup (fs s) (dest_components source_dir backup_path x) = None"
    and "\<forall>x \<in> set files. dest_dirname source_dir backup_path x \<noteq>
                             dest_components source_dir backup_path x"
  shows "process_files source_dir backup_path False dry_run (Some backup_path) files s =
         process_files source_dir backup_path True dry_run None files s"
  using assms
proof (induction files arbitrary: s)
  case Nil
  then show ?case by simp
next
  case (Cons x files)
  obtain root filename where x: "x = (root, filename)" by (cases x)
  from Cons.prems(2) x
  have none: "lookup (fs s) (dest_components source_dir backup_path (root, filename)) = None"
    by simp
  note same = process_file_own_baseline [OF none, of dry_run]
  obtain r s' where step:
    "process_file source_dir backup_path True dry_run None root filename s = (r, s')"
    by (cases "process_file source_dir backup_path True dry_run None root filename s")
  show ?case
  proof (cases r)
    case (Some e)
    with step same x show ?thesis by simp
  next
    case None
    have "lookup (fs s') (dest_components source_dir backup_path y) = None"
      if y: "y \<in> set files" for y
    proof -
      from Cons.prems(3) x
      have dir: "dest_dirname source_dir backup_path (root, filename) \<noteq>
                 dest_components source_dir backup_path (root, filename)"
        by simp
      from Cons.prems(1) x y
      have "\<not> prefix (dest_components source_dir backup_path y)
                      (dest_components source_dir backup_path (root, filename))"
        by (simp add: list_all_iff)
      with process_file_full_lookup [OF none dir step, of "dest_components source_dir backup_path y"]
        Cons.prems(2) y
      show ?thesis by simp
    qed
    with Cons.prems have "process_files source_dir backup_path False dry_run (Some backup_path) files s' =
         process_files source_dir backup_path True dry_run None files s'"
      by (intro Cons.IH) simp_all
    with step same x None show ?thesis by simp
  qed
qed

text \<open>The destination of a walked file.\<close>

lemma walked_destination:
  assumes c: "components (path_join root filename) = components source_dir @ r"
    and r: "r \<noteq> []" "list_all valid_name r"
  shows "dest_components source_dir backup_path (root, filename) = components backup_path @ r"
    and "dest_dirname source_dir backup_path (root, filename) = components backup_path @ butlast r"
proof -
  from r(1) obtain x xs where x: "r = x # xs" by (cases r) auto
  from r(1) obtain r' fn where fn: "r = r' @ [fn]" by (cases r rule: rev_cases) auto
  from r(2) x have vx: "valid_name x" and vxs: "list_all valid_name xs" by simp_all
  from r(2) fn have vfn: "valid_name fn" and vr': "list_all valid_name r'" by simp_all
  have rel: "path_relpath (path_join root filename) source_dir = foldl path_join x xs"
    using path_relpath_below [of "path_join root filename" source_dir x xs] c x by simp
  have dest: "path_join backup_path (foldl path_join x xs) = foldl path_join backup_path r"
    using path_join_foldl [OF valid_name_relative [OF vx] vxs, of backup_path] x by simp
  show "dest_components source_dir backup_path (root, filename) = components backup_path @ r"
    unfolding dest_components_def fst_conv snd_conv rel dest
    by (rule components_foldl_join [OF r(2)])
  have "foldl path_join backup_path r = path_join (foldl path_join backup_path r') fn"
    by (simp add: fn)
  then have "components (path_dirname (foldl path_join backup_path r)) =
             components (foldl path_join backup_path r')"
    by (simp add: components_dirname_join [OF vfn])
  also have "\<dots> = components backup_path @ r'"
    by (rule components_foldl_join [OF vr'])
  finally show "dest_dirname source_dir backup_path (root, filename) =
                components backup_path @ butlast r"
    unfolding dest_dirname_def fst_conv snd_conv rel dest
    by (simp add: fn)
qed

lemma walked_paths_flatten:
  "map (\<lambda>x. components (path_join (fst x) (snd x)))
     (concat (map (\<lambda>(root, dirs, files). map (\<lambda>filename. (root, filename)) files) w)) =
   walked_paths w"
  by (induction w) (auto simp: walked_paths_def)

lemma walk_files_paths:
  "map (\<lambda>x. components (path_join (fst x) (snd x))) (walk_files s source_dir) =
   walked_paths (os_walk s source_dir)"
  by (simp add: walk_files_def walked_paths_flatten)

text \<open>Nothing lies below a path that does not exist.\<close>

lemma ancestors_member: "b \<noteq> [] \<Longrightarrow> b \<in> set (ancestors (b @ r))"
proof -
  assume "b \<noteq> []"
  then have "length b \<in> {1..<Suc (length (b @ r))}" by (cases b) auto
  then have "take (length b) (b @ r) \<in> set (ancestors (b @ r))"
    unfolding ancestors_def by (auto simp del: take_append intro!: imageI)
  then show ?thesis by simp
qed

lemma nothing_below_missing:
  assumes "prefix_closed t" and "lookup t b = None"
  shows "lookup t (b @ r) = None"
proof (rule ccontr)
  assume "lookup t (b @ r) \<noteq> None"
  then obtain x where x: "lookup t (b @ r) = Some x" by auto
  from assms(2) have b: "b \<noteq> []" by (auto simp: lookup_def)
  with x have "map_of t (b @ r) = Some x" by (simp add: lookup_def)
  then have "(b @ r, x) \<in> set t" by (rule map_of_SomeD)
  with assms(1) have "\<forall>q \<in> set (ancestors (b @ r)). lookup t q \<noteq> None"
    by (auto simp: prefix_closed_def list_all_iff)
  with ancestors_member [OF b, of r] assms(2) show False by auto
qed

lemma path_isdir_iff:
  "path_isdir s p \<longleftrightarrow>
     p \<noteq> [] \<and> faults s Stat (components p) = None \<and> lookup (fs s) (components p) = Some Dir"
  by (auto simp: path_isdir_def os_stat_def split: option.splits node.splits)

lemma child_names_iff:
  "n \<in> set (child_names t d) \<longleftrightarrow> (\<exists>x. (d @ [n], x) \<in> set t)"
proof
  assume "n \<in> set (child_names t d)"
  then obtain p x where px: "(p, x) \<in> set t" "p \<noteq> []" "butlast p = d" "n = last p"
    by (auto simp: child_names_def)
  then have "p = d @ [n]" by (metis append_butlast_last_id)
  with px(1) show "\<exists>x. (d @ [n], x) \<in> set t" by auto
next
  assume "\<exists>x. (d @ [n], x) \<in> set t"
  then obtain x where "(d @ [n], x) \<in> set t" by auto
  then have "(\<lambda>(p, n). last p) (d @ [n], x) \<in>
      (\<lambda>(p, n). last p) ` {a \<in> set t. case a of (p, n) \<Rightarrow> p \<noteq> [] \<and> butlast p = d}"
    by (intro imageI) simp
  then show "n \<in> set (child_names t d)"
    by (simp add: child_names_def)
qed

lemma lookup_Some_member: "p \<noteq> [] \<Longrightarrow> lookup t p = Some x \<Longrightarrow> (p, x) \<in> set t"
  by (simp add: lookup_def map_of_SomeD)

lemma member_lookup: "(p, x) \<in> set t \<Longrightarrow> lookup t p \<noteq> None"
  using weak_map_of_SomeI [of p x t] by (auto simp: lookup_def)

text \<open>The state in which the loop of an incremental run starts.\<close>

lemma incremental_loop_entry:
  assumes vd: "valid_datetime now"
    and vn: "valid_names (fs s0)"
    and prep: "prepare_run now source_dir destination_dir False dry_run s0 = Inr (latest, s7)"
    and older: "\<forall>n \<in> set (child_names (fs s0) (components destination_dir)).
                  path_isdir s0 (path_join destination_dir n) \<and> strptime n \<noteq> None \<longrightarrow>
                  n < strftime now"
    and listing: "faults s0 ListDir (components destination_dir) = None"
    and stat: "faults s0 Stat (components (path_join destination_dir (strftime now))) = None"
  shows "latest = Some (path_join destination_dir (strftime now))"
    and "lookup (fs s0) (components (path_join destination_dir (strftime now))) = None"
    and "fs s7 = map (\<lambda>p. (p, Dir))
                   (filter (\<lambda>p. lookup (fs s0) p = None)
                      (ancestors (components (path_join destination_dir (strftime now))))) @ fs s0"
    and "faults s7 = faults s0"
    and "source_dir \<noteq> []"
proof -
  let ?ts = "strftime now"
  let ?bp = "path_join destination_dir ?ts"
  let ?d = "components destination_dir"
  let ?B = "components ?bp"
  let ?s3 = "announce source_dir False dry_run s0"
  from prepare_run_Inr [OF prep] obtain s4 s6 where
    src: "path_isdir s0 source_dir" and dst: "path_isdir s0 destination_dir"
    and mk: "os_makedirs ?s3 ?bp = Inr s4"
    and rb: "resolve_baseline destination_dir False
               (log_append (''Created new backup directory: '' @ quoted ?bp) s4) = (latest, s6)"
    and s7: "s7 = s6\<lparr>files_to_copy := 0, files_skipped := 0, total_files := 0\<rparr>"
    by blast
  define s5 where "s5 = log_append (''Created new backup directory: '' @ quoted ?bp) s4"
  note rb = rb [folded s5_def]
  from src show "source_dir \<noteq> []" by (simp add: path_isdir_iff)
  have ts: "valid_name ?ts" by (rule strftime_valid_name)
  have parse: "strptime ?ts \<noteq> None" using strptime_strftime [OF vd] by simp
  have B: "?B = ?d @ [?ts]" by (rule components_join_name [OF ts])
  have bp_ne: "?bp \<noteq> []" using B components_Nil by auto
  from dst have d: "destination_dir \<noteq> []" "lookup (fs s0) ?d = Some Dir"
    by (simp_all add: path_isdir_iff)
  have f3: "fs ?s3 = fs s0" "faults ?s3 = faults s0"
    by (simp_all add: announce_frame)
  from os_makedirs_frame [OF mk] obtain t where s4: "s4 = ?s3\<lparr>fs := t\<rparr>" by blast
  then have f4: "faults s4 = faults s0" by (simp add: f3)
  have fs4: "fs s4 = map (\<lambda>p. (p, Dir)) (filter (\<lambda>p. lookup (fs s0) p = None) (ancestors ?B)) @ fs s0"
    using os_makedirs_fs [OF mk] by (simp add: f3)
  have l4: "lookup (fs s4) q =
      (if q \<in> set (ancestors ?B) \<and> lookup (fs s0) q = None then Some Dir else lookup (fs s0) q)" for q
    using os_makedirs_lookup [OF mk, of q] by (simp add: f3)
  have f5: "fs s5 = fs s4" "faults s5 = faults s0"
    by (simp_all add: s5_def log_append_def f4)
  have Bin: "?B \<in> set (ancestors ?B)"
    using ancestors_member [of ?B "[]"] B by simp
  have none: "lookup (fs s0) ?B = None"
  proof (rule ccontr)
    assume "lookup (fs s0) ?B \<noteq> None"
    then obtain x where x: "lookup (fs s0) ?B = Some x" by auto
    show False
    proof (cases x)
      case (File c)
      with x have "is_file (lookup (fs ?s3) ?B)" by (simp add: is_file_def f3)
      with Bin have "list_ex (\<lambda>p. is_file (lookup (fs ?s3) p)) (ancestors ?B)"
        by (auto simp: list_ex_iff)
      with mk show False
        by (auto simp: os_makedirs_def Let_def split: if_splits option.splits)
    next
      case Dir
      with x have "(?d @ [?ts], Dir) \<in> set (fs s0)"
        using lookup_Some_member [of ?B "fs s0" Dir] B by simp
      then have "?ts \<in> set (child_names (fs s0) ?d)"
        by (auto simp: child_names_iff)
      moreover from x Dir stat bp_ne have "path_isdir s0 ?bp"
        by (simp add: path_isdir_iff)
      ultimately have "?ts < ?ts" using older parse by blast
      then show False by simp
    qed
  qed
  then show "lookup (fs s0) ?B = None" .
  have lB: "lookup (fs s4) ?B = Some Dir" using l4 [of ?B] Bin none by simp
  have ld: "lookup (fs s4) ?d = Some Dir" using l4 [of ?d] d(2) by simp
  have entries: "os_listdir s5 destination_dir = Inr (child_names (fs s4) ?d)"
    using d(1) listing ld by (simp add: os_listdir_def scandir_def f5)
  define snapshots where
    "snapshots = filter (\<lambda>entry. path_isdir s5 (path_join destination_dir entry) \<and>
                                  strptime entry \<noteq> None) (child_names (fs s4) ?d)"
  have own: "?ts \<in> set snapshots"
  proof -
    have "(?d @ [?ts], Dir) \<in> set (fs s4)"
      using Bin none B by (simp add: fs4)
    then have "?ts \<in> set (child_names (fs s4) ?d)" by (auto simp: child_names_iff)
    moreover have "path_isdir s5 ?bp"
      using lB stat bp_ne by (simp add: path_isdir_iff f5)
    ultimately show ?thesis using parse by (simp add: snapshots_def)
  qed
  have le: "n \<le> ?ts" if n: "n \<in> set snapshots" for n
  proof (cases "n = ?ts")
    case True
    then show ?thesis by simp
  next
    case False
    from n have c4: "n \<in> set (child_names (fs s4) ?d)"
      and dir5: "path_isdir s5 (path_join destination_dir n)" and pn: "strptime n \<noteq> None"
      by (simp_all add: snapshots_def)
    from c4 obtain x where x: "(?d @ [n], x) \<in> set (fs s4)" by (auto simp: child_names_iff)
    have notanc: "?d @ [n] \<notin> set (ancestors ?B)"
    proof
      assume "?d @ [n] \<in> set (ancestors ?B)"
      from ancestors_prefix [OF this] B False show False by simp
    qed
    with x have "(?d @ [n], x) \<in> set (fs s0)" by (auto simp: fs4)
    then have c0: "n \<in> set (child_names (fs s0) ?d)" by (auto simp: child_names_iff)
    from child_names_valid [OF vn c0] have "components (path_join destination_dir n) = ?d @ [n]"
      by (rule components_join_name)
    with dir5 l4 [of "?d @ [n]"] notanc have "path_isdir s0 (path_join destination_dir n)"
      by (simp add: path_isdir_iff f5)
    with c0 pn older have "n < ?ts" by blast
    then show ?thesis by simp
  qed
  have "Max (set snapshots) = ?ts"
    using own le by (intro Max_eqI) auto
  moreover from own have "snapshots \<noteq> []" by auto
  ultimately have "find_latest_backup destination_dir s5 = (Some ?bp, s5)"
    using find_latest_backup_listing [OF entries snapshots_def] by simp
  with rb bp_ne show "latest = Some ?bp"
    by (auto simp: resolve_baseline_def)
  from rb have "fs s6 = fs s5" "faults s6 = faults s5"
    by (auto simp: resolve_baseline_def find_latest_backup_def Let_def log_append_def
                   print_out_def print_err_def
             split: if_splits prod.splits option.splits sum.splits list.splits)
  with s7 f5 fs4 show "fs s7 = map (\<lambda>p. (p, Dir))
      (filter (\<lambda>p. lookup (fs s0) p = None) (ancestors ?B)) @ fs s0"
    and "faults s7 = faults s0"
    by simp_all
qed

lemma valid_names_append:
  "valid_names (a @ b) \<longleftrightarrow> valid_names a \<and> valid_names b"
  by (simp add: valid_names_def)

lemma valid_names_new_dirs:
  assumes "list_all valid_name b"
  shows "valid_names (map (\<lambda>p. (p, Dir)) (filter P (ancestors b)))"
proof -
  have "list_all valid_name p" if "p \<in> set (ancestors b)" for p
  proof -
    from ancestors_prefix [OF that] have "set p \<subseteq> set b" by (auto simp: set_mono_prefix)
    with assms show ?thesis by (auto simp: list_all_iff)
  qed
  then show ?thesis
    by (auto simp: valid_names_def list_all_iff)
qed

text \<open>
  C3, as amended: take an incremental run, on a well-formed file system, that gets to
  its loop, whose timestamp sorts after the name of every snapshot that the
  destination already holds, and in which \<open>find_latest_backup\<close> meets no I/O error
  (the destination can be listed and the new directory can be examined). Its
  baseline is the snapshot directory that the run itself has just created; nothing
  lies below that directory when the loop starts; and the loop does to every file
  what the loop of a full run does: no file is skipped as identical.
\<close>

theorem own_snapshot_is_baseline:
  assumes vd: "valid_datetime now"
    and vn: "valid_names (fs s0)"
    and pc: "prefix_closed (fs s0)"
    and prep: "prepare_run now source_dir destination_dir False dry_run s0 = Inr (latest, s7)"
    and older: "\<forall>n \<in> set (child_names (fs s0) (components destination_dir)).
                  path_isdir s0 (path_join destination_dir n) \<and> strptime n \<noteq> None \<longrightarrow>
                  n < strftime now"
    and listing: "faults s0 ListDir (components destination_dir) = None"
    and stat: "faults s0 Stat (components (path_join destination_dir (strftime now))) = None"
  shows "latest = Some (path_join destination_dir (strftime now)) \<and>
         (\<forall>r. r \<noteq> [] \<longrightarrow>
              lookup (fs s7) (components (path_join destination_dir (strftime now)) @ r) = None) \<and>
         process_files source_dir (path_join destination_dir (strftime now)) False dry_run latest
           (walk_files s7 source_dir) s7 =
         process_files source_dir (path_join destination_dir (strftime now)) True dry_run None
           (walk_files s7 source_dir) s7"
proof -
  let ?bp = "path_join destination_dir (strftime now)"
  let ?B = "components ?bp"
  let ?S = "components source_dir"
  let ?files = "walk_files s7 source_dir"
  let ?c = "\<lambda>x. components (path_join (fst x) (snd x))"
  note entry = incremental_loop_entry [OF vd vn prep older listing stat]
  let ?new = "filter (\<lambda>p. lookup (fs s0) p = None) (ancestors ?B)"
  have l7: "lookup (fs s7) q = (if q \<in> set ?new then Some Dir else lookup (fs s0) q)" for q
    unfolding entry(3) by (rule lookup_new_dirs) simp
  have empty: "lookup (fs s7) (?B @ r) = None" if "r \<noteq> []" for r
  proof -
    have "?B @ r \<notin> set (ancestors ?B)"
    proof
      assume "?B @ r \<in> set (ancestors ?B)"
      from ancestors_prefix [OF this] that show False by simp
    qed
    with l7 [of "?B @ r"] nothing_below_missing [OF pc entry(2), of r] show ?thesis by simp
  qed
  have B: "list_all valid_name ?B"
    using components_valid [of _ ?bp] by (auto simp: list_all_iff)
  have vn7: "valid_names (fs s7)"
    unfolding entry(3) valid_names_append
    using valid_names_new_dirs [OF B] vn by simp
  have walk: "os_walk s7 source_dir = walk_from s7 source_dir ?S"
    using entry(5) by (simp add: os_walk_def)
  from walk_from_files [OF vn7, of source_dir ?S]
  have cs: "distinct (walked_paths (os_walk s7 source_dir))"
    "\<forall>c \<in> set (walked_paths (os_walk s7 source_dir)). file_below s7 ?S c"
    by (simp_all add: walk)
  have paths: "map ?c ?files = walked_paths (os_walk s7 source_dir)"
    by (rule walk_files_paths)
  have each: "\<exists>r. r \<noteq> [] \<and> ?c x = ?S @ r \<and>
                  dest_components source_dir ?bp x = ?B @ r \<and>
                  dest_dirname source_dir ?bp x = ?B @ butlast r"
    if "x \<in> set ?files" for x
  proof -
    from that have "?c x \<in> set (map ?c ?files)" by simp
    with paths cs(2) have "file_below s7 ?S (?c x)" by simp
    then obtain r where r: "?c x = ?S @ r" "r \<noteq> []" "list_all valid_name r"
      by (auto simp: file_below_def)
    from walked_destination [OF r(1) r(2) r(3), of ?bp] r show ?thesis
      by (cases x) auto
  qed
  have none: "\<forall>x \<in> set ?files. lookup (fs s7) (dest_components source_dir ?bp x) = None"
    using each empty by metis
  have dirs: "\<forall>x \<in> set ?files. dest_dirname source_dir ?bp x \<noteq> dest_components source_dir ?bp x"
  proof
    fix x
    assume "x \<in> set ?files"
    from each [OF this] obtain r where r: "r \<noteq> []"
      "dest_components source_dir ?bp x = ?B @ r" "dest_dirname source_dir ?bp x = ?B @ butlast r"
      by blast
    from r(1) have "butlast r \<noteq> r" by (metis append_butlast_last_id append_self_conv last_snoc list.distinct(1))
    with r show "dest_dirname source_dir ?bp x \<noteq> dest_components source_dir ?bp x" by simp
  qed
  have rebase: "map (dest_components source_dir ?bp) ?files =
                map (\<lambda>c. ?B @ drop (length ?S) c) (map ?c ?files)"
  proof -
    have "dest_components source_dir ?bp x = ?B @ drop (length ?S) (?c x)" if "x \<in> set ?files" for x
      using each [OF that] by auto
    then show ?thesis by (simp cong: map_cong)
  qed
  have "prefix_free (map ?c ?files)"
    unfolding paths by (rule files_prefix_free [OF cs])
  moreover have "\<forall>c \<in> set (map ?c ?files). prefix ?S c"
    using cs(2) unfolding paths by (auto simp: file_below_def)
  ultimately have pf: "prefix_free (map (dest_components source_dir ?bp) ?files)"
    unfolding rebase by (rule prefix_free_rebase)
  from process_files_own_baseline [OF pf none dirs, of dry_run] entry(1) empty
  show ?thesis by simp
qed

lemma older_snapshot_facts:
  "valid_datetime noon \<and>
   valid_names (fs (initial_state older_snapshot_tree no_faults)) \<and>
   prefix_closed (fs (initial_state older_snapshot_tree no_faults)) \<and>
   (\<forall>n \<in> set (child_names (fs (initial_state older_snapshot_tree no_faults)) (components ''dst'')).
      path_isdir (initial_state older_snapshot_tree no_faults) (path_join ''dst'' n) \<and>
      strptime n \<noteq> None \<longrightarrow> n < strftime noon) \<and>
   faults (initial_state older_snapshot_tree no_faults) ListDir (components ''dst'') = None \<and>
   faults (initial_state older_snapshot_tree no_faults) Stat
     (components (path_join ''dst'' (strftime noon))) = None \<and>
   path_join ''dst'' (strftime noon) = ''dst/2024-03-01_12-00-00'' \<and>
   child_names older_snapshot_tree [''dst''] = [''2024-01-01_00-00-00''] \<and>
   ''2024-01-01_00-00-00'' < strftime noon \<and>
   (case prepare_run noon ''src'' ''dst'' False False (initial_state older_snapshot_tree no_faults) of
      Inl s \<Rightarrow> False | Inr p \<Rightarrow> True)"
  by code_simp

lemma older_snapshot_run:
  "(case run_backup noon ''src'' ''dst'' False False (initial_state older_snapshot_tree no_faults) of
      (result, s) \<Rightarrow>
        result = Completed \<and> total_files s = 1 \<and> files_to_copy s = 1 \<and> files_skipped s = 0 \<and>
        lookup (fs s) [''dst'', ''2024-03-01_12-00-00'', ''a.txt''] = Some (File ''hello'') \<and>
        log_messages s =
          [''Created new backup directory: '' @ quoted ''dst/2024-03-01_12-00-00'',
           ''Performing incremental backup against: '' @ quoted ''dst/2024-03-01_12-00-00'',
           ''Copied: '' @ quoted ''a.txt''])"
  by code_simp

theorem own_snapshot_is_baseline_witness:
  "(\<exists>latest s7.
      prepare_run noon ''src'' ''dst'' False False (initial_state older_snapshot_tree no_faults) =
        Inr (latest, s7) \<and>
      latest = Some ''dst/2024-03-01_12-00-00'' \<and>
      lookup (fs s7) [''dst'', ''2024-03-01_12-00-00'', ''a.txt''] = None \<and>
      process_files ''src'' ''dst/2024-03-01_12-00-00'' False False latest (walk_files s7 ''src'') s7 =
      process_files ''src'' ''dst/2024-03-01_12-00-00'' True False None (walk_files s7 ''src'') s7) \<and>
   child_names older_snapshot_tree [''dst''] = [''2024-01-01_00-00-00''] \<and>
   ''2024-01-01_00-00-00'' < strftime noon \<and>
   (case run_backup noon ''src'' ''dst'' False False (initial_state older_snapshot_tree no_faults) of
      (result, s) \<Rightarrow>
        result = Completed \<and> total_files s = 1 \<and> files_to_copy s = 1 \<and> files_skipped s = 0 \<and>
        lookup (fs s) [''dst'', ''2024-03-01_12-00-00'', ''a.txt''] = Some (File ''hello'') \<and>
        log_messages s =
          [''Created new backup directory: '' @ quoted ''dst/2024-03-01_12-00-00'',
           ''Performing incremental backup against: '' @ quoted ''dst/2024-03-01_12-00-00'',
           ''Copied: '' @ quoted ''a.txt''])"
proof -
  let ?s0 = "initial_state older_snapshot_tree no_faults"
  note f = older_snapshot_facts
  from f obtain latest s7 where
    prep: "prepare_run noon ''src'' ''dst'' False False ?s0 = Inr (latest, s7)"
    by (cases "prepare_run noon ''src'' ''dst'' False False ?s0") auto
  from f have bp: "path_join ''dst'' (strftime noon) = ''dst/2024-03-01_12-00-00''" by blast
  have comps: "components ''dst/2024-03-01_12-00-00'' @ [''a.txt''] =
               [''dst'', ''2024-03-01_12-00-00'', ''a.txt'']"
    by code_simp
  from f have h: "valid_datetime noon" "valid_names (fs ?s0)" "prefix_closed (fs ?s0)"
    "\<forall>n \<in> set (child_names (fs ?s0) (components ''dst'')).
       path_isdir ?s0 (path_join ''dst'' n) \<and> strptime n \<noteq> None \<longrightarrow> n < strftime noon"
    "faults ?s0 ListDir (components ''dst'') = None"
    "faults ?s0 Stat (components (path_join ''dst'' (strftime noon))) = None"
    by blast+
  note t = own_snapshot_is_baseline [OF h(1) h(2) h(3) prep h(4) h(5) h(6), unfolded bp]
  from t have "lookup (fs s7) (components ''dst/2024-03-01_12-00-00'' @ [''a.txt'']) = None"
    by blast
  then have e: "lookup (fs s7) [''dst'', ''2024-03-01_12-00-00'', ''a.txt''] = None"
    by (simp only: comps)
  have "\<exists>latest s7.
      prepare_run noon ''src'' ''dst'' False False ?s0 = Inr (latest, s7) \<and>
      latest = Some ''dst/2024-03-01_12-00-00'' \<and>
      lookup (fs s7) [''dst'', ''2024-03-01_12-00-00'', ''a.txt''] = None \<and>
      process_files ''src'' ''dst/2024-03-01_12-00-00'' False False latest (walk_files s7 ''src'') s7 =
      process_files ''src'' ''dst/2024-03-01_12-00-00'' True False None (walk_files s7 ''src'') s7"
    using prep t e by blast
  moreover from f have "child_names older_snapshot_tree [''dst''] = [''2024-01-01_00-00-00'']"
    "''2024-01-01_00-00-00'' < strftime noon"
    by blast+
  ultimately show ?thesis
    by (intro conjI older_snapshot_run)
qed

text \<open>
  When the destination cannot be listed, \<open>find_latest_backup\<close> returns \<open>None\<close>: the
  baseline is then not the new directory, although the directory was created and
  its name sorts after the only older snapshot.
\<close>

theorem listing_failure_leaves_no_baseline:
  "child_names older_snapshot_tree [''dst''] = [''2024-01-01_00-00-00''] \<and>
   ''2024-01-01_00-00-00'' < strftime noon \<and>
   (case prepare_run noon ''src'' ''dst'' False False
           (initial_state older_snapshot_tree listdir_denied) of
      Inl s \<Rightarrow> False
    | Inr (latest, s) \<Rightarrow>
        latest = None \<and> lookup (fs s) [''dst'', ''2024-03-01_12-00-00''] = Some Dir)"
  by code_simp

subsection \<open>What a dry run creates\<close>



















end
